theory Spec2Isabelle
  imports Main "HOL-Library.AList"
begin

section \<open>JavaScript values and the object store\<close>

type_synonym addr = nat

text \<open>The built-in objects a property path can reach from a value: the prototype objects
  and the constructors of Object, Function, Array, Date, String, Number and Boolean, their
  methods (named by owner and key), and the numbers held by them whose value is not
  described here (the \<open>length\<close> of a built-in method, the non-integer constants of
  \<open>Number\<close>). They are the host's and are not part of the store; no operation of this
  development changes them (an assignment to one of them has the outcome \<open>Unmodelled\<close>).\<close>

datatype cname = CObject | CFunction | CArray | CDate | CString | CNumber | CBoolean

datatype builtin = Proto cname | Ctor cname | Method string string | Amount string

datatype val = VUndef | VNull | VBool bool | VNum int | VStr string | VRef addr | VBuiltin builtin

datatype closure = Opaque | Restore val

datatype kind = KPlain | KArr "val list" | KDate int | KFun closure

text \<open>An object of the store: its kind (the elements of an array are part of the kind),
  its prototype, its enumerable own properties in enumeration order, and its
  non-enumerable own properties, each with the flag that tells whether it is writable.
  Enumerable properties are writable data properties.\<close>

datatype obj = Obj kind val "(string \<times> val) list" "(string \<times> val \<times> bool) list"

type_synonym heap = "obj list"

datatype reason = PathsMustBeArray | InOnNonObject | NotAFunction | PropertyOfNullish
  | NotADate | CyclicPrototype

datatype error = TypeError reason | RangeError | Unmodelled

datatype jstype = TUndefined | TObject | TBoolean | TNumber | TString | TFunction

definition obj_at :: "heap \<Rightarrow> addr \<Rightarrow> obj" where
  "obj_at h a = (if a < length h then h ! a else Obj KPlain VNull [] [])"

definition kind_of :: "obj \<Rightarrow> kind" where
  "kind_of ob = (case ob of Obj k proto ps hs \<Rightarrow> k)"

definition proto_of :: "obj \<Rightarrow> val" where
  "proto_of ob = (case ob of Obj k proto ps hs \<Rightarrow> proto)"

definition props_of :: "obj \<Rightarrow> (string \<times> val) list" where
  "props_of ob = (case ob of Obj k proto ps hs \<Rightarrow> ps)"

definition hidden_of :: "obj \<Rightarrow> (string \<times> val \<times> bool) list" where
  "hidden_of ob = (case ob of Obj k proto ps hs \<Rightarrow> hs)"

definition alloc :: "heap \<Rightarrow> obj \<Rightarrow> heap \<times> val" where
  "alloc h ob = (h @ [ob], VRef (length h))"

fun typeof :: "heap \<Rightarrow> val \<Rightarrow> jstype" where
  "typeof h VUndef = TUndefined"
| "typeof h VNull = TObject"
| "typeof h (VBool b) = TBoolean"
| "typeof h (VNum n) = TNumber"
| "typeof h (VStr s) = TString"
| "typeof h (VRef a) = (case kind_of (obj_at h a) of KFun c \<Rightarrow> TFunction | _ \<Rightarrow> TObject)"
| "typeof h (VBuiltin b) =
    (case b of
       Proto c \<Rightarrow> if c = CFunction then TFunction else TObject
     | Ctor c \<Rightarrow> TFunction
     | Method owner name \<Rightarrow> TFunction
     | Amount name \<Rightarrow> TNumber)"

definition is_object :: "heap \<Rightarrow> val \<Rightarrow> bool" where
  "is_object h v = (typeof h v = TObject \<and> v \<noteq> VNull)"

text \<open>\<open>Array.isArray\<close>; \<open>Array.prototype\<close> is itself an array, of length 0.\<close>

fun isArray :: "heap \<Rightarrow> val \<Rightarrow> bool" where
  "isArray h (VRef a) = (case kind_of (obj_at h a) of KArr xs \<Rightarrow> True | _ \<Rightarrow> False)"
| "isArray h (VBuiltin b) = (b = Proto CArray)"
| "isArray h v = False"

definition elems_of :: "heap \<Rightarrow> val \<Rightarrow> val list" where
  "elems_of h v = (case v of VRef a \<Rightarrow> (case kind_of (obj_at h a) of KArr xs \<Rightarrow> xs | _ \<Rightarrow> []) | _ \<Rightarrow> [])"

subsection \<open>Array indices as property keys\<close>

definition is_digit :: "char \<Rightarrow> bool" where
  "is_digit c = (48 \<le> (of_char c :: nat) \<and> (of_char c :: nat) \<le> 57)"

definition digit_char :: "nat \<Rightarrow> char" where
  "digit_char d = char_of (48 + d)"

definition idx_of :: "string \<Rightarrow> nat option" where
  "idx_of s =
    (if s \<noteq> [] \<and> list_all is_digit s \<and> (hd s \<noteq> CHR ''0'' \<or> s = ''0'')
     then Some (foldl (\<lambda>n c. 10 * n + ((of_char c :: nat) - 48)) 0 s) else None)"

fun show_nat :: "nat \<Rightarrow> string" where
  "show_nat n = (if n < 10 then [digit_char n] else show_nat (n div 10) @ [digit_char (n mod 10)])"

declare show_nat.simps [simp del]

definition show_int :: "int \<Rightarrow> string" where
  "show_int i = (if i < 0 then ''-'' @ show_nat (nat (- i)) else show_nat (nat i))"

subsection \<open>The built-in objects\<close>

definition cname_str :: "cname \<Rightarrow> string" where
  "cname_str c =
    (case c of CObject \<Rightarrow> ''Object'' | CFunction \<Rightarrow> ''Function'' | CArray \<Rightarrow> ''Array''
     | CDate \<Rightarrow> ''Date'' | CString \<Rightarrow> ''String'' | CNumber \<Rightarrow> ''Number'' | CBoolean \<Rightarrow> ''Boolean'')"

text \<open>The method names of the built-in prototype objects.\<close>

definition proto_methods :: "cname \<Rightarrow> string list" where
  "proto_methods c =
    (case c of
       CObject \<Rightarrow>
         [''__defineGetter__'', ''__defineSetter__'', ''hasOwnProperty'', ''__lookupGetter__'',
          ''__lookupSetter__'', ''isPrototypeOf'', ''propertyIsEnumerable'', ''toString'',
          ''valueOf'', ''toLocaleString'']
     | CFunction \<Rightarrow> [''apply'', ''bind'', ''call'', ''toString'']
     | CArray \<Rightarrow>
         [''at'', ''concat'', ''copyWithin'', ''fill'', ''find'', ''findIndex'', ''findLast'',
          ''findLastIndex'', ''lastIndexOf'', ''pop'', ''push'', ''reverse'', ''shift'',
          ''unshift'', ''slice'', ''sort'', ''splice'', ''includes'', ''indexOf'', ''join'',
          ''keys'', ''entries'', ''values'', ''forEach'', ''filter'', ''flat'', ''flatMap'',
          ''map'', ''every'', ''some'', ''reduce'', ''reduceRight'', ''toReversed'',
          ''toSorted'', ''toSpliced'', ''with'', ''toLocaleString'', ''toString'']
     | CDate \<Rightarrow>
         [''toString'', ''toDateString'', ''toTimeString'', ''toISOString'', ''toUTCString'',
          ''toGMTString'', ''getDate'', ''setDate'', ''getDay'', ''getFullYear'',
          ''setFullYear'', ''getHours'', ''setHours'', ''getMilliseconds'',
          ''setMilliseconds'', ''getMinutes'', ''setMinutes'', ''getMonth'', ''setMonth'',
          ''getSeconds'', ''setSeconds'', ''getTime'', ''setTime'', ''getTimezoneOffset'',
          ''getUTCDate'', ''setUTCDate'', ''getUTCDay'', ''getUTCFullYear'',
          ''setUTCFullYear'', ''getUTCHours'', ''setUTCHours'', ''getUTCMilliseconds'',
          ''setUTCMilliseconds'', ''getUTCMinutes'', ''setUTCMinutes'', ''getUTCMonth'',
          ''setUTCMonth'', ''getUTCSeconds'', ''setUTCSeconds'', ''valueOf'', ''getYear'',
          ''setYear'', ''toJSON'', ''toLocaleString'', ''toLocaleDateString'',
          ''toLocaleTimeString'']
     | CString \<Rightarrow>
         [''anchor'', ''at'', ''big'', ''blink'', ''bold'', ''charAt'', ''charCodeAt'',
          ''codePointAt'', ''concat'', ''endsWith'', ''fontcolor'', ''fontsize'', ''fixed'',
          ''includes'', ''indexOf'', ''isWellFormed'', ''italics'', ''lastIndexOf'', ''link'',
          ''localeCompare'', ''match'', ''matchAll'', ''normalize'', ''padEnd'', ''padStart'',
          ''repeat'', ''replace'', ''replaceAll'', ''search'', ''slice'', ''small'', ''split'',
          ''strike'', ''sub'', ''substr'', ''substring'', ''sup'', ''startsWith'',
          ''toString'', ''toWellFormed'', ''trim'', ''trimStart'', ''trimLeft'', ''trimEnd'',
          ''trimRight'', ''toLocaleLowerCase'', ''toLocaleUpperCase'', ''toLowerCase'',
          ''toUpperCase'', ''valueOf'']
     | CNumber \<Rightarrow>
         [''toExponential'', ''toFixed'', ''toPrecision'', ''toString'', ''valueOf'',
          ''toLocaleString'']
     | CBoolean \<Rightarrow> [''toString'', ''valueOf''])"

text \<open>The static methods of the built-in constructors, and the constants of \<open>Number\<close>.\<close>

definition static_methods :: "cname \<Rightarrow> string list" where
  "static_methods c =
    (case c of
       CObject \<Rightarrow>
         [''assign'', ''create'', ''defineProperties'', ''defineProperty'', ''entries'',
          ''freeze'', ''fromEntries'', ''getOwnPropertyDescriptor'',
          ''getOwnPropertyDescriptors'', ''getOwnPropertyNames'', ''getOwnPropertySymbols'',
          ''getPrototypeOf'', ''groupBy'', ''hasOwn'', ''is'', ''isExtensible'', ''isFrozen'',
          ''isSealed'', ''keys'', ''preventExtensions'', ''seal'', ''setPrototypeOf'',
          ''values'']
     | CFunction \<Rightarrow> []
     | CArray \<Rightarrow> [''from'', ''fromAsync'', ''isArray'', ''of'']
     | CDate \<Rightarrow> [''UTC'', ''now'', ''parse'']
     | CString \<Rightarrow> [''fromCharCode'', ''fromCodePoint'', ''raw'']
     | CNumber \<Rightarrow>
         [''isFinite'', ''isInteger'', ''isNaN'', ''isSafeInteger'', ''parseFloat'', ''parseInt'']
     | CBoolean \<Rightarrow> [])"

definition number_constants :: "string list" where
  "number_constants =
    [''EPSILON'', ''MAX_VALUE'', ''MIN_VALUE'', ''NaN'', ''NEGATIVE_INFINITY'', ''POSITIVE_INFINITY'']"

text \<open>Keys under which a prototype object holds the method of another key.\<close>

definition method_alias :: "cname \<Rightarrow> string \<Rightarrow> string" where
  "method_alias c key =
    (if c = CString \<and> key = ''trimLeft'' then ''trimStart''
     else if c = CString \<and> key = ''trimRight'' then ''trimEnd''
     else if c = CDate \<and> key = ''toGMTString'' then ''toUTCString''
     else key)"

text \<open>What a property lookup finds: a data property with its value and its writable flag,
  or the accessor \<open>__proto__\<close> of \<open>Object.prototype\<close>.\<close>

datatype slot = Data val bool | ProtoAccessor

text \<open>The own properties of the built-in objects. The two accessors \<open>caller\<close> and
  \<open>arguments\<close> of \<open>Function.prototype\<close>, which throw when read, and properties keyed by
  symbols are not described.\<close>

definition builtin_slot :: "builtin \<Rightarrow> string \<Rightarrow> slot option" where
  "builtin_slot b key =
    (case b of
       Proto c \<Rightarrow>
         if key = ''constructor'' then Some (Data (VBuiltin (Ctor c)) True)
         else if key \<in> set (proto_methods c) then
           Some (Data (VBuiltin (Method (cname_str c @ ''.prototype'') (method_alias c key))) True)
         else if c = CObject \<and> key = ''__proto__'' then Some ProtoAccessor
         else if c = CArray \<and> key = ''length'' then Some (Data (VNum 0) True)
         else if (c = CString \<or> c = CFunction) \<and> key = ''length'' then Some (Data (VNum 0) False)
         else if c = CFunction \<and> key = ''name'' then Some (Data (VStr []) False)
         else None
     | Ctor c \<Rightarrow>
         if key = ''prototype'' then Some (Data (VBuiltin (Proto c)) False)
         else if key = ''length'' then Some (Data (VNum (if c = CDate then 7 else 1)) False)
         else if key = ''name'' then Some (Data (VStr (cname_str c)) False)
         else if key \<in> set (static_methods c) then
           Some (Data (VBuiltin (Method (cname_str c) key)) True)
         else if c = CNumber \<and> key = ''MAX_SAFE_INTEGER'' then
           Some (Data (VNum 9007199254740991) False)
         else if c = CNumber \<and> key = ''MIN_SAFE_INTEGER'' then
           Some (Data (VNum (- 9007199254740991)) False)
         else if c = CNumber \<and> key \<in> set number_constants then
           Some (Data (VBuiltin (Amount (''Number.'' @ key))) False)
         else None
     | Method owner name \<Rightarrow>
         if key = ''length'' then
           Some (Data (VBuiltin (Amount (owner @ ''.'' @ name @ ''.length''))) False)
         else if key = ''name'' then Some (Data (VStr name) False)
         else None
     | Amount name \<Rightarrow> None)"

text \<open>The prototype of a built-in object; for a number, the object its properties are
  looked up in.\<close>

definition builtin_parent :: "builtin \<Rightarrow> val" where
  "builtin_parent b =
    (case b of
       Proto c \<Rightarrow> if c = CObject then VNull else VBuiltin (Proto CObject)
     | Ctor c \<Rightarrow> VBuiltin (Proto CFunction)
     | Method owner name \<Rightarrow> VBuiltin (Proto CFunction)
     | Amount name \<Rightarrow> VBuiltin (Proto CNumber))"

subsection \<open>Property operations\<close>

text \<open>The own property of an object of the store under a key: an element or the length
  of an array, an enumerable property, or a non-enumerable one.\<close>

definition own_slot :: "obj \<Rightarrow> string \<Rightarrow> slot option" where
  "own_slot ob key =
    (case ob of Obj k proto ps hs \<Rightarrow>
       (let named = (case map_of ps key of
                       Some v \<Rightarrow> Some (Data v True)
                     | None \<Rightarrow> (case map_of hs key of Some (v, w) \<Rightarrow> Some (Data v w) | None \<Rightarrow> None))
        in case k of
             KArr xs \<Rightarrow>
               (case idx_of key of
                  Some i \<Rightarrow> if i < length xs then Some (Data (xs ! i) True) else named
                | None \<Rightarrow> if key = ''length'' then Some (Data (VNum (int (length xs))) True) else named)
           | _ \<Rightarrow> named))"

text \<open>\<open>Object.getPrototypeOf\<close>, also for the primitive values that have a wrapper.\<close>

fun prototype_of :: "heap \<Rightarrow> val \<Rightarrow> val" where
  "prototype_of h (VRef a) = proto_of (obj_at h a)"
| "prototype_of h (VBuiltin b) = builtin_parent b"
| "prototype_of h (VStr s) = VBuiltin (Proto CString)"
| "prototype_of h (VNum n) = VBuiltin (Proto CNumber)"
| "prototype_of h (VBool b) = VBuiltin (Proto CBoolean)"
| "prototype_of h v = VNull"

text \<open>The lookup of a key along the prototype chain, starting at an object. The chain of
  a store of \<open>n\<close> objects has at most \<open>n\<close> objects of the store followed by at most three
  built-in ones, which is the fuel \<open>chain_fuel\<close> gives; prototype chains are acyclic.\<close>

fun find_slot :: "nat \<Rightarrow> heap \<Rightarrow> val \<Rightarrow> string \<Rightarrow> slot option" where
  "find_slot 0 h v key = None"
| "find_slot (Suc n) h (VRef a) key =
    (case own_slot (obj_at h a) key of
       Some s \<Rightarrow> Some s
     | None \<Rightarrow> find_slot n h (proto_of (obj_at h a)) key)"
| "find_slot (Suc n) h (VBuiltin b) key =
    (case builtin_slot b key of
       Some s \<Rightarrow> Some s
     | None \<Rightarrow> find_slot n h (builtin_parent b) key)"
| "find_slot (Suc n) h v key = None"

definition chain_fuel :: "heap \<Rightarrow> nat" where
  "chain_fuel h = length h + 4"

text \<open>\<open>key in current\<close>: a TypeError unless \<open>current\<close> is an object or a function.\<close>

definition has_prop :: "heap \<Rightarrow> val \<Rightarrow> string \<Rightarrow> error + bool" where
  "has_prop h v key =
    (if v \<noteq> VNull \<and> (typeof h v = TObject \<or> typeof h v = TFunction)
     then Inr (find_slot (chain_fuel h) h v key \<noteq> None)
     else Inl (TypeError InOnNonObject))"

text \<open>\<open>current[key]\<close> as a read. Every read of the source is guarded against \<open>null\<close> and
  \<open>undefined\<close>, for which the value here is \<open>undefined\<close>. A string has its characters and
  its length as own properties; the other properties of a primitive value are those of
  its wrapper's prototype.\<close>

definition string_slot :: "string \<Rightarrow> string \<Rightarrow> val option" where
  "string_slot s key =
    (case idx_of key of
       Some i \<Rightarrow> if i < length s then Some (VStr [s ! i]) else None
     | None \<Rightarrow> if key = ''length'' then Some (VNum (int (length s))) else None)"

definition read_slot :: "heap \<Rightarrow> val \<Rightarrow> slot option \<Rightarrow> val" where
  "read_slot h receiver s =
    (case s of
       None \<Rightarrow> VUndef
     | Some (Data x w) \<Rightarrow> x
     | Some ProtoAccessor \<Rightarrow> prototype_of h receiver)"

fun get_prop :: "heap \<Rightarrow> val \<Rightarrow> string \<Rightarrow> val" where
  "get_prop h VUndef key = VUndef"
| "get_prop h VNull key = VUndef"
| "get_prop h (VStr s) key =
    (case string_slot s key of
       Some x \<Rightarrow> x
     | None \<Rightarrow> read_slot h (VStr s) (find_slot (chain_fuel h) h (VBuiltin (Proto CString)) key))"
| "get_prop h (VNum n) key =
    read_slot h (VNum n) (find_slot (chain_fuel h) h (VBuiltin (Proto CNumber)) key)"
| "get_prop h (VBool b) key =
    read_slot h (VBool b) (find_slot (chain_fuel h) h (VBuiltin (Proto CBoolean)) key)"
| "get_prop h v key = read_slot h v (find_slot (chain_fuel h) h v key)"

text \<open>The number a value stands for where a length is expected, when it is a
  non-negative integer below \<open>2^32\<close>; \<open>None\<close> when it is not a number (\<open>NaN\<close>), negative or
  too large. A string without digit and without \<open>I\<close> that has a visible character is not
  a number; the conversion of other strings that are not canonical numerals, of objects
  and of the undescribed numbers is \<open>Unmodelled\<close>.\<close>

definition not_numeric :: "string \<Rightarrow> bool" where
  "not_numeric s =
    ((\<exists>c \<in> set s. 33 \<le> (of_char c :: nat) \<and> (of_char c :: nat) \<le> 126)
     \<and> (\<forall>c \<in> set s. \<not> is_digit c \<and> c \<noteq> CHR ''I''))"

fun to_length :: "val \<Rightarrow> error + nat option" where
  "to_length VUndef = Inr None"
| "to_length VNull = Inr (Some 0)"
| "to_length (VBool b) = Inr (Some (if b then 1 else 0))"
| "to_length (VNum n) = Inr (if 0 \<le> n \<and> n < 4294967296 then Some (nat n) else None)"
| "to_length (VStr s) =
    (case idx_of s of
       Some n \<Rightarrow> Inr (if n < 4294967296 then Some n else None)
     | None \<Rightarrow> if not_numeric s then Inr None else Inl Unmodelled)"
| "to_length v = Inl Unmodelled"

text \<open>An assignment to an index or to the length of an array. Inside the array the
  element is replaced; a smaller length truncates; a length that is not a valid array
  length is a RangeError. An array with holes cannot be written down here, so an index or
  a length beyond the end is \<open>Unmodelled\<close>.\<close>

definition array_write :: "kind \<Rightarrow> string \<Rightarrow> val \<Rightarrow> (error + kind) option" where
  "array_write k key x =
    (case k of
       KArr xs \<Rightarrow>
         (case idx_of key of
            Some i \<Rightarrow> Some (if i < length xs then Inr (KArr (xs[i := x])) else Inl Unmodelled)
          | None \<Rightarrow>
              if key = ''length'' then
                Some (case to_length x of
                        Inl e \<Rightarrow> Inl e
                      | Inr None \<Rightarrow> Inl RangeError
                      | Inr (Some n) \<Rightarrow> if n \<le> length xs then Inr (KArr (take n xs)) else Inl Unmodelled)
              else None)
     | _ \<Rightarrow> None)"

text \<open>Whether the object at an address is on the prototype chain that starts at a value.\<close>

fun reaches :: "nat \<Rightarrow> heap \<Rightarrow> val \<Rightarrow> addr \<Rightarrow> bool" where
  "reaches 0 h v a = False"
| "reaches (Suc n) h (VRef b) a = (b = a \<or> reaches n h (proto_of (obj_at h b)) a)"
| "reaches (Suc n) h v a = False"

text \<open>\<open>current[key] = value\<close> outside strict mode. On an object of the store: an own
  property is overwritten when it is writable and left alone when it is not; a key that is
  not an own property is added as an enumerable one, unless the prototype chain holds it
  as a read-only property (nothing happens) or as the accessor \<open>__proto__\<close> (the prototype
  is replaced when the value is an object or \<open>null\<close>, and a cycle is a TypeError).
  On a primitive value nothing happens.\<close>

fun set_prop :: "heap \<Rightarrow> val \<Rightarrow> string \<Rightarrow> val \<Rightarrow> error + heap" where
  "set_prop h (VRef a) key x =
    (if a < length h then
       (case h ! a of Obj k proto ps hs \<Rightarrow>
          (case array_write k key x of
             Some (Inl e) \<Rightarrow> Inl e
           | Some (Inr k1) \<Rightarrow> Inr (h[a := Obj k1 proto ps hs])
           | None \<Rightarrow>
               if key \<in> fst ` set ps then Inr (h[a := Obj k proto (AList.update key x ps) hs])
               else
                 (case map_of hs key of
                    Some (v, w) \<Rightarrow>
                      Inr (if w then h[a := Obj k proto ps (AList.update key (x, True) hs)] else h)
                  | None \<Rightarrow>
                      (case find_slot (chain_fuel h) h proto key of
                         Some ProtoAccessor \<Rightarrow>
                           if x = VNull then Inr (h[a := Obj k VNull ps hs])
                           else if typeof h x = TObject \<or> typeof h x = TFunction then
                             (if reaches (chain_fuel h) h x a then Inl (TypeError CyclicPrototype)
                              else Inr (h[a := Obj k x ps hs]))
                           else Inr h
                       | Some (Data v False) \<Rightarrow> Inr h
                       | _ \<Rightarrow> Inr (h[a := Obj k proto (AList.update key x ps) hs])))))
     else Inr h)"
| "set_prop h VUndef key x = Inl (TypeError PropertyOfNullish)"
| "set_prop h VNull key x = Inl (TypeError PropertyOfNullish)"
| "set_prop h (VBuiltin b) key x = (case b of Amount name \<Rightarrow> Inr h | _ \<Rightarrow> Inl Unmodelled)"
| "set_prop h v key x = Inr h"

text \<open>\<open>current[i]\<close> and \<open>current[i] = value\<close> with a numeric \<open>i\<close> below \<open>current.length\<close>\<close>

definition get_elem :: "heap \<Rightarrow> val \<Rightarrow> nat \<Rightarrow> val" where
  "get_elem h v i = (let xs = elems_of h v in if i < length xs then xs ! i else VUndef)"

definition set_elem :: "heap \<Rightarrow> val \<Rightarrow> nat \<Rightarrow> val \<Rightarrow> heap" where
  "set_elem h v i x =
    (case v of
       VRef a \<Rightarrow>
         (if a < length h then
            (case h ! a of
               Obj (KArr xs) proto ps hs \<Rightarrow>
                 if i < length xs then h[a := Obj (KArr (xs[i := x])) proto ps hs] else h
             | _ \<Rightarrow> h)
          else h)
     | _ \<Rightarrow> h)"

text \<open>The keys a \<open>for (const key in current)\<close> loop visits: the enumerable own keys, then
  those of the prototype, and so on along the chain; a key is skipped when an object
  earlier in the chain has an own property of that name, enumerable or not. The built-in
  objects have no enumerable properties. (Keys that are canonical numerals come first in
  the host's order; the list of enumerable properties of an object is taken to be in
  that order.)\<close>

definition own_enum_keys :: "obj \<Rightarrow> string list" where
  "own_enum_keys ob =
    (case ob of Obj k proto ps hs \<Rightarrow>
       (case k of KArr xs \<Rightarrow> map show_nat [0..<length xs] | _ \<Rightarrow> []) @ map fst ps)"

definition own_keys :: "obj \<Rightarrow> string list" where
  "own_keys ob =
    (case ob of Obj k proto ps hs \<Rightarrow>
       own_enum_keys ob @ map fst hs @ (case k of KArr xs \<Rightarrow> [''length''] | _ \<Rightarrow> []))"

fun for_in :: "nat \<Rightarrow> heap \<Rightarrow> val \<Rightarrow> string list \<Rightarrow> string list" where
  "for_in 0 h v seen = []"
| "for_in (Suc n) h (VRef a) seen =
    filter (\<lambda>key. key \<notin> set seen) (own_enum_keys (obj_at h a))
    @ for_in n h (proto_of (obj_at h a)) (seen @ own_keys (obj_at h a))"
| "for_in (Suc n) h v seen = []"

definition enum_keys :: "heap \<Rightarrow> val \<Rightarrow> string list" where
  "enum_keys h v = for_in (chain_fuel h) h v []"

text \<open>\<open>Object.prototype.hasOwnProperty.call(obj, key)\<close>\<close>

definition hasOwnProperty :: "heap \<Rightarrow> val \<Rightarrow> string \<Rightarrow> bool" where
  "hasOwnProperty h v key =
    (case v of
       VRef a \<Rightarrow> own_slot (obj_at h a) key \<noteq> None
     | VBuiltin b \<Rightarrow> builtin_slot b key \<noteq> None
     | VStr s \<Rightarrow> string_slot s key \<noteq> None
     | _ \<Rightarrow> False)"

text \<open>\<open>obj instanceof C\<close> for a built-in constructor \<open>C\<close>: whether \<open>C.prototype\<close> is on the
  prototype chain of \<open>obj\<close>.\<close>

fun in_chain :: "nat \<Rightarrow> heap \<Rightarrow> val \<Rightarrow> builtin \<Rightarrow> bool" where
  "in_chain 0 h v b = False"
| "in_chain (Suc n) h (VRef a) b = in_chain n h (proto_of (obj_at h a)) b"
| "in_chain (Suc n) h (VBuiltin c) b = (c = b \<or> in_chain n h (builtin_parent c) b)"
| "in_chain (Suc n) h v b = False"

definition instance_of :: "heap \<Rightarrow> val \<Rightarrow> cname \<Rightarrow> bool" where
  "instance_of h v c =
    ((typeof h v = TObject \<or> typeof h v = TFunction) \<and> v \<noteq> VNull
     \<and> in_chain (chain_fuel h) h (prototype_of h v) (Proto c))"

section \<open>deepClone\<close>

text \<open>\<open>new Date(obj.getTime())\<close>: the method is looked up on the object; the built-in one
  throws a TypeError unless the object is a date.\<close>

definition clone_date :: "heap \<Rightarrow> val \<Rightarrow> error + heap \<times> val" where
  "clone_date h ob =
    (let m = get_prop h ob ''getTime'' in
     if m = VBuiltin (Method ''Date.prototype'' ''getTime'') then
       (case ob of
          VRef a \<Rightarrow>
            (case kind_of (obj_at h a) of
               KDate t \<Rightarrow> Inr (alloc h (Obj (KDate t) (VBuiltin (Proto CDate)) [] []))
             | _ \<Rightarrow> Inl (TypeError NotADate))
        | _ \<Rightarrow> Inl (TypeError NotADate))
     else if typeof h m = TFunction then Inl Unmodelled
     else Inl (TypeError NotAFunction))"

text \<open>\<open>obj.map(item => deepClone(item))\<close> runs the built-in \<open>map\<close> when that is what the
  lookup finds; on an array whose \<open>constructor\<close> is the built-in \<open>Array\<close> the result is a new
  array with the prototype \<open>Array.prototype\<close>. \<open>None\<close> stands for the cases left out:
  another function under \<open>map\<close>, an object that is not an array, another constructor.\<close>

definition map_items :: "heap \<Rightarrow> val \<Rightarrow> (error + val list) option" where
  "map_items h ob =
    (let m = get_prop h ob ''map'' in
     if m = VBuiltin (Method ''Array.prototype'' ''map'') then
       (case ob of
          VRef a \<Rightarrow>
            (case kind_of (obj_at h a) of
               KArr xs \<Rightarrow>
                 if get_prop h ob ''constructor'' = VBuiltin (Ctor CArray) then Some (Inr xs)
                 else None
             | _ \<Rightarrow> None)
        | _ \<Rightarrow> None)
     else if typeof h m = TFunction then None
     else Some (Inl (TypeError NotAFunction)))"

fun deepClone :: "nat \<Rightarrow> heap \<Rightarrow> val \<Rightarrow> (error + heap \<times> val) option"
  and cloneItems :: "nat \<Rightarrow> heap \<Rightarrow> val list \<Rightarrow> (error + heap \<times> val list) option"
  and cloneKeys :: "nat \<Rightarrow> heap \<Rightarrow> val \<Rightarrow> val \<Rightarrow> string list \<Rightarrow> (error + heap) option"
where
  "deepClone 0 h ob = None"
| "deepClone (Suc n) h ob =
    (if ob = VNull \<or> typeof h ob \<noteq> TObject then Some (Inr (h, ob))
     else if instance_of h ob CDate then Some (clone_date h ob)
     else if instance_of h ob CArray then
       (case map_items h ob of
          None \<Rightarrow> Some (Inl Unmodelled)
        | Some (Inl e) \<Rightarrow> Some (Inl e)
        | Some (Inr xs) \<Rightarrow>
            (case cloneItems n h xs of
               None \<Rightarrow> None
             | Some (Inl e) \<Rightarrow> Some (Inl e)
             | Some (Inr (h1, ys)) \<Rightarrow>
                 Some (Inr (alloc h1 (Obj (KArr ys) (VBuiltin (Proto CArray)) [] [])))))
     else
       (let (h1, cloned) = alloc h (Obj KPlain (prototype_of h ob) [] []) in
        case cloneKeys n h1 cloned ob (enum_keys h ob) of
          None \<Rightarrow> None
        | Some (Inl e) \<Rightarrow> Some (Inl e)
        | Some (Inr h2) \<Rightarrow> Some (Inr (h2, cloned))))"
| "cloneItems n h [] = Some (Inr (h, []))"
| "cloneItems n h (x # xs) =
    (case deepClone n h x of
       None \<Rightarrow> None
     | Some (Inl e) \<Rightarrow> Some (Inl e)
     | Some (Inr (h1, y)) \<Rightarrow>
         (case cloneItems n h1 xs of
            None \<Rightarrow> None
          | Some (Inl e) \<Rightarrow> Some (Inl e)
          | Some (Inr (h2, ys)) \<Rightarrow> Some (Inr (h2, y # ys))))"
| "cloneKeys n h cloned ob [] = Some (Inr h)"
| "cloneKeys n h cloned ob (key # keys) =
    (if hasOwnProperty h ob key then
       (case deepClone n h (get_prop h ob key) of
          None \<Rightarrow> None
        | Some (Inl e) \<Rightarrow> Some (Inl e)
        | Some (Inr (h1, y)) \<Rightarrow>
            (case set_prop h1 cloned key y of
               Inl e \<Rightarrow> Some (Inl e)
             | Inr h2 \<Rightarrow> cloneKeys n h2 cloned ob keys))
     else cloneKeys n h cloned ob keys)"

section \<open>parsePath\<close>

record pstate =
  st_parts :: "string list"
  st_current :: string
  st_inBrackets :: bool
  st_inQuotes :: bool
  st_quoteChar :: string

text \<open>\<open>if (current) { parts.push(current); current = '' }\<close>\<close>

definition push_current :: "pstate \<Rightarrow> pstate" where
  "push_current s =
    (if st_current s \<noteq> [] then s\<lparr>st_parts := st_parts s @ [st_current s], st_current := []\<rparr> else s)"

definition parse_char :: "pstate \<Rightarrow> char \<Rightarrow> pstate" where
  \<open>parse_char s c =
    (if \<not> st_inBrackets s \<and> c = CHR ''.'' then push_current s
     else if c = CHR ''['' then (push_current s)\<lparr>st_inBrackets := True\<rparr>
     else if c = CHR '']'' \<and> st_inBrackets s then
       (push_current s)\<lparr>st_inBrackets := False, st_inQuotes := False\<rparr>
     else if (c = CHR ''"'' \<or> c = CHR 0x27) \<and> st_inBrackets s then
       (if \<not> st_inQuotes s then s\<lparr>st_inQuotes := True, st_quoteChar := [c]\<rparr>
        else if [c] = st_quoteChar s then s\<lparr>st_inQuotes := False, st_quoteChar := []\<rparr>
        else s\<lparr>st_current := st_current s @ [c]\<rparr>)
     else s\<lparr>st_current := st_current s @ [c]\<rparr>)\<close>

definition parse_init :: pstate where
  "parse_init =
    \<lparr>st_parts = [], st_current = [], st_inBrackets = False, st_inQuotes = False, st_quoteChar = []\<rparr>"

definition parsePath :: "string \<Rightarrow> string list" where
  "parsePath path = st_parts (push_current (foldl parse_char parse_init path))"

text \<open>\<open>parsePath(path)\<close> for an entry of the \<open>paths\<close> array that is not a string. The loop
  runs over \<open>path[0]\<close>, ..., \<open>path[path.length - 1]\<close>, whatever \<open>path\<close> is: the elements of an
  array, nothing for a number or a boolean (they have no \<open>length\<close>), and \<open>null\<close> or
  \<open>undefined\<close> make the read of \<open>length\<close> throw. An item that is a one-character string is
  handled as that character is; any other item is compared with the delimiters without
  success and appended to \<open>current\<close> as a string.\<close>

fun to_str :: "val \<Rightarrow> string option" where
  "to_str VUndef = Some ''undefined''"
| "to_str VNull = Some ''null''"
| "to_str (VBool b) = Some (if b then ''true'' else ''false'')"
| "to_str (VNum i) = Some (show_int i)"
| "to_str (VStr s) = Some s"
| "to_str v = None"

definition parse_item :: "pstate \<Rightarrow> val \<Rightarrow> pstate option" where
  "parse_item s v =
    (case v of
       VStr [c] \<Rightarrow> Some (parse_char s c)
     | _ \<Rightarrow> (case to_str v of None \<Rightarrow> None | Some t \<Rightarrow> Some (s\<lparr>st_current := st_current s @ t\<rparr>)))"

fun parse_items :: "pstate \<Rightarrow> val list \<Rightarrow> pstate option" where
  "parse_items s [] = Some s"
| "parse_items s (v # vs) = (case parse_item s v of None \<Rightarrow> None | Some s1 \<Rightarrow> parse_items s1 vs)"

definition path_parts :: "heap \<Rightarrow> val \<Rightarrow> error + string list" where
  "path_parts h path =
    (case path of
       VStr s \<Rightarrow> Inr (parsePath s)
     | VUndef \<Rightarrow> Inl (TypeError PropertyOfNullish)
     | VNull \<Rightarrow> Inl (TypeError PropertyOfNullish)
     | _ \<Rightarrow>
         (case to_length (get_prop h path ''length'') of
            Inl e \<Rightarrow> Inl e
          | Inr len \<Rightarrow>
              (case parse_items parse_init
                      (map (\<lambda>i. get_prop h path (show_nat i)) [0..<(case len of None \<Rightarrow> 0 | Some n \<Rightarrow> n)]) of
                 None \<Rightarrow> Inl Unmodelled
               | Some s \<Rightarrow> Inr (st_parts (push_current s)))))"

section \<open>setValue and getValue\<close>

type_synonym calls = "(val \<times> val) list"

fun set_elems :: "heap \<Rightarrow> val \<Rightarrow> nat list \<Rightarrow> val \<Rightarrow> heap" where
  "set_elems h cur [] x = h"
| "set_elems h cur (i # is) x = set_elems (set_elem h cur i x) cur is x"

fun set_keys :: "heap \<Rightarrow> val \<Rightarrow> string list \<Rightarrow> val \<Rightarrow> error + heap" where
  "set_keys h cur [] x = Inr h"
| "set_keys h cur (key # keys) x =
    (case set_prop h cur key x of Inl e \<Rightarrow> Inl e | Inr h1 \<Rightarrow> set_keys h1 cur keys x)"

definition set_last :: "heap \<Rightarrow> val \<Rightarrow> string option \<Rightarrow> val \<Rightarrow> error + heap \<times> bool" where
  "set_last h cur lastKey x =
    (if lastKey = Some ''*'' then
       (if isArray h cur then Inr (set_elems h cur [0..<length (elems_of h cur)] x, True)
        else if is_object h cur then
          (case set_keys h cur (enum_keys h cur) x of Inl e \<Rightarrow> Inl e | Inr h1 \<Rightarrow> Inr (h1, True))
        else Inr (h, True))
     else
       (let key = (case lastKey of Some k \<Rightarrow> k | None \<Rightarrow> ''undefined'') in
        case has_prop h cur key of
          Inl e \<Rightarrow> Inl e
        | Inr True \<Rightarrow> (case set_prop h cur key x of Inl e \<Rightarrow> Inl e | Inr h1 \<Rightarrow> Inr (h1, True))
        | Inr False \<Rightarrow> Inr (h, True)))"

fun setValue :: "heap \<Rightarrow> val \<Rightarrow> string list \<Rightarrow> val \<Rightarrow> error + heap \<times> bool" where
  "setValue h cur [] x = set_last h cur None x"
| "setValue h cur [lastKey] x = set_last h cur (Some lastKey) x"
| "setValue h cur (key # rest) x =
    (case has_prop h cur key of
       Inl e \<Rightarrow> Inl e
     | Inr False \<Rightarrow> Inr (h, False)
     | Inr True \<Rightarrow>
         (let nxt = get_prop h cur key in
          if typeof h nxt \<noteq> TObject \<or> nxt = VNull then Inr (h, False)
          else setValue h nxt rest x))"

fun getValue :: "heap \<Rightarrow> val \<Rightarrow> string list \<Rightarrow> val" where
  "getValue h cur [] = cur"
| "getValue h cur (part # rest) =
    (if cur = VNull \<or> cur = VUndef then VUndef else getValue h (get_prop h cur part) rest)"

section \<open>The censor\<close>

datatype censor = CLit val | CFun "val \<Rightarrow> val \<Rightarrow> val"

text \<open>\<open>typeof censor === 'function' ? censor(value, path) : censor\<close>, recording the call.\<close>

definition call_censor :: "censor \<Rightarrow> calls \<Rightarrow> val \<Rightarrow> val \<Rightarrow> val \<times> calls" where
  "call_censor censor log v path =
    (case censor of CLit x \<Rightarrow> (x, log) | CFun f \<Rightarrow> (f v path, log @ [(v, path)]))"

subsection \<open>String helpers\<close>

text \<open>The replacement text of \<open>String.prototype.replace\<close> for a string pattern.\<close>

fun get_substitution :: "string \<Rightarrow> string \<Rightarrow> string \<Rightarrow> string \<Rightarrow> string" where
  "get_substitution matched preceding following [] = []"
| "get_substitution matched preceding following [c] = [c]"
| "get_substitution matched preceding following (c # d # r) =
    (if c = CHR 0x24 \<and> d = CHR 0x24 then CHR 0x24 # get_substitution matched preceding following r
     else if c = CHR 0x24 \<and> d = CHR ''&'' then matched @ get_substitution matched preceding following r
     else if c = CHR 0x24 \<and> d = CHR 0x60 then preceding @ get_substitution matched preceding following r
     else if c = CHR 0x24 \<and> d = CHR 0x27 then following @ get_substitution matched preceding following r
     else c # get_substitution matched preceding following (d # r))"

text \<open>\<open>originalPath.replace('*', key)\<close>: the first \<open>*\<close> of the path string is replaced.\<close>

definition replace_star :: "string \<Rightarrow> string \<Rightarrow> string" where
  "replace_star path key =
    (let preceding = takeWhile (\<lambda>c. c \<noteq> CHR ''*'') path;
         rest = dropWhile (\<lambda>c. c \<noteq> CHR ''*'') path
     in if rest = [] then path
        else preceding @ get_substitution ''*'' preceding (tl rest) key @ tl rest)"

text \<open>A path entry that is not a string has a \<open>replace\<close> method only if it brings one:
  the call is a TypeError when what the lookup finds is not a function, and \<open>Unmodelled\<close>
  when it is.\<close>

definition replace_in :: "heap \<Rightarrow> val \<Rightarrow> string \<Rightarrow> error + val" where
  "replace_in h originalPath key =
    (case originalPath of
       VStr s \<Rightarrow> Inr (VStr (replace_star s key))
     | v \<Rightarrow> if typeof h (get_prop h v ''replace'') = TFunction then Inl Unmodelled
            else Inl (TypeError NotAFunction))"

text \<open>\<open>typeof censor === 'function' ? censor(value, `${originalPath.replace('*', key)}`) : censor\<close>\<close>

definition censor_at :: "censor \<Rightarrow> heap \<Rightarrow> calls \<Rightarrow> val \<Rightarrow> val \<Rightarrow> string \<Rightarrow> error + val \<times> calls" where
  "censor_at censor h log v originalPath key =
    (case censor of
       CLit x \<Rightarrow> Inr (x, log)
     | CFun f \<Rightarrow>
         (case replace_in h originalPath key of
            Inl e \<Rightarrow> Inl e
          | Inr path \<Rightarrow> Inr (call_censor censor log v path)))"

text \<open>\<open>xs.join('.')\<close>\<close>

fun join_dot :: "string list \<Rightarrow> string" where
  "join_dot [] = []"
| "join_dot [x] = x"
| "join_dot (x # xs) = x @ ''.'' @ join_dot xs"

section \<open>Wildcard paths\<close>

text \<open>The loops \<open>for (let i = 0; i < current.length; i++)\<close> run over the indices
  \<open>0, ..., current.length - 1\<close> of the array as it is when the loop starts. Where the body
  only assigns \<open>current[i]\<close> the length stays what it was; the loop of \<open>traverse\<close>, whose
  body can reach the array again, compares the index with the length at every round.

  The guarded walk \<open>for (const part of parts) { if (current == null) return; current = current[part] }\<close>;
  \<open>None\<close> is the early return.\<close>

fun walk :: "heap \<Rightarrow> val \<Rightarrow> string list \<Rightarrow> val option" where
  "walk h cur [] = Some cur"
| "walk h cur (part # rest) =
    (if cur = VNull \<or> cur = VUndef then None else walk h (get_prop h cur part) rest)"

fun censor_elems :: "censor \<Rightarrow> val \<Rightarrow> heap \<times> calls \<Rightarrow> val \<Rightarrow> nat list \<Rightarrow> error + heap \<times> calls" where
  "censor_elems censor originalPath (h, log) cur [] = Inr (h, log)"
| "censor_elems censor originalPath (h, log) cur (i # is) =
    (case censor_at censor h log (get_elem h cur i) originalPath (show_nat i) of
       Inl e \<Rightarrow> Inl e
     | Inr (actualCensor, log1) \<Rightarrow>
         censor_elems censor originalPath (set_elem h cur i actualCensor, log1) cur is)"

fun censor_keys :: "censor \<Rightarrow> val \<Rightarrow> heap \<times> calls \<Rightarrow> val \<Rightarrow> string list \<Rightarrow> error + heap \<times> calls" where
  "censor_keys censor originalPath (h, log) cur [] = Inr (h, log)"
| "censor_keys censor originalPath (h, log) cur (key # keys) =
    (case censor_at censor h log (get_prop h cur key) originalPath key of
       Inl e \<Rightarrow> Inl e
     | Inr (actualCensor, log1) \<Rightarrow>
         (case set_prop h cur key actualCensor of
            Inl e \<Rightarrow> Inl e
          | Inr h1 \<Rightarrow> censor_keys censor originalPath (h1, log1) cur keys))"

definition traverse_leaf ::
  "censor \<Rightarrow> string list \<Rightarrow> heap \<times> calls \<Rightarrow> val \<Rightarrow> string list \<Rightarrow> error + heap \<times> calls" where
  "traverse_leaf censor afterWildcard s cur pathSoFar =
    (let (h, log) = s;
         (actualCensor, log1) =
           call_censor censor log (getValue h cur afterWildcard)
             (VStr (join_dot pathSoFar @ ''.'' @ join_dot afterWildcard))
     in case setValue h cur afterWildcard actualCensor of
          Inl e \<Rightarrow> Inl e
        | Inr (h1, applied) \<Rightarrow> Inr (h1, log1))"

function traverse ::
    "censor \<Rightarrow> string list \<Rightarrow> string list \<Rightarrow> heap \<times> calls \<Rightarrow> val \<Rightarrow> string list \<Rightarrow> error + heap \<times> calls"
  and traverse_elems ::
    "censor \<Rightarrow> string list \<Rightarrow> string list \<Rightarrow> heap \<times> calls \<Rightarrow> val \<Rightarrow> string list \<Rightarrow> nat list \<Rightarrow> error + heap \<times> calls"
  and traverse_keys ::
    "censor \<Rightarrow> string list \<Rightarrow> string list \<Rightarrow> heap \<times> calls \<Rightarrow> val \<Rightarrow> string list \<Rightarrow> string list \<Rightarrow> error + heap \<times> calls"
where
  "traverse censor beforeWildcard afterWildcard s cur pathSoFar =
    (if length pathSoFar = length beforeWildcard then
       (if isArray (fst s) cur then
          traverse_elems censor beforeWildcard afterWildcard s cur pathSoFar
            [0..<length (elems_of (fst s) cur)]
        else if is_object (fst s) cur then
          traverse_keys censor beforeWildcard afterWildcard s cur pathSoFar (enum_keys (fst s) cur)
        else Inr s)
     else if length pathSoFar < length beforeWildcard then
       (let nextKey = beforeWildcard ! length pathSoFar in
        if is_object (fst s) cur \<and> has_prop (fst s) cur nextKey = Inr True then
          traverse censor beforeWildcard afterWildcard s (get_prop (fst s) cur nextKey)
            (pathSoFar @ [nextKey])
        else Inr s)
     else traverse_leaf censor afterWildcard s cur pathSoFar)"
| "traverse_elems censor beforeWildcard afterWildcard s cur pathSoFar [] = Inr s"
| "traverse_elems censor beforeWildcard afterWildcard s cur pathSoFar (i # is) =
    (if i < length (elems_of (fst s) cur) then
       (case traverse censor beforeWildcard afterWildcard s (get_elem (fst s) cur i)
               (pathSoFar @ [show_nat i]) of
          Inl e \<Rightarrow> Inl e
        | Inr s1 \<Rightarrow> traverse_elems censor beforeWildcard afterWildcard s1 cur pathSoFar is)
     else Inr s)"
| "traverse_keys censor beforeWildcard afterWildcard s cur pathSoFar [] = Inr s"
| "traverse_keys censor beforeWildcard afterWildcard s cur pathSoFar (key # keys) =
    (case traverse censor beforeWildcard afterWildcard s (get_prop (fst s) cur key)
            (pathSoFar @ [key]) of
       Inl e \<Rightarrow> Inl e
     | Inr s1 \<Rightarrow> traverse_keys censor beforeWildcard afterWildcard s1 cur pathSoFar keys)"
  by pat_completeness auto
termination
  by (relation "measures
        [\<lambda>x. case x of
            Inl (c, b, a, s, cur, p) \<Rightarrow> if length p \<le> length b then 2 * (length b - length p) + 2 else 0
          | Inr (Inl (c, b, a, s, cur, p, is)) \<Rightarrow> if length p \<le> length b then 2 * (length b - length p) + 1 else 0
          | Inr (Inr (c, b, a, s, cur, p, ks)) \<Rightarrow> if length p \<le> length b then 2 * (length b - length p) + 1 else 0,
         \<lambda>x. case x of
            Inl (c, b, a, s, cur, p) \<Rightarrow> 0
          | Inr (Inl (c, b, a, s, cur, p, is)) \<Rightarrow> Suc (length is)
          | Inr (Inr (c, b, a, s, cur, p, ks)) \<Rightarrow> Suc (length ks)]")
     auto

declare traverse.simps [simp del]

definition redactIntermediateWildcard ::
  "heap \<times> calls \<Rightarrow> val \<Rightarrow> string list \<Rightarrow> censor \<Rightarrow> nat \<Rightarrow> val \<Rightarrow> error + heap \<times> calls" where
  "redactIntermediateWildcard s ob parts censor wildcardIndex originalPath =
    (let beforeWildcard = take wildcardIndex parts;
         afterWildcard = drop (wildcardIndex + 1) parts
     in if length beforeWildcard = 0 then traverse censor beforeWildcard afterWildcard s ob []
        else (case walk (fst s) ob beforeWildcard of
                None \<Rightarrow> Inr s
              | Some cur \<Rightarrow>
                  if cur \<noteq> VNull \<and> cur \<noteq> VUndef
                  then traverse censor beforeWildcard afterWildcard s cur beforeWildcard
                  else Inr s))"

text \<open>\<open>parts.indexOf('*')\<close> for a list that contains \<open>'*'\<close>.\<close>

definition indexOf_star :: "string list \<Rightarrow> nat" where
  "indexOf_star parts = length (takeWhile (\<lambda>p. p \<noteq> ''*'') parts)"

definition redactWildcardPath ::
  "heap \<times> calls \<Rightarrow> val \<Rightarrow> string list \<Rightarrow> censor \<Rightarrow> val \<Rightarrow> error + heap \<times> calls" where
  "redactWildcardPath s ob parts censor originalPath =
    (let wildcardIndex = indexOf_star parts in
     if wildcardIndex = length parts - 1 then
       (case walk (fst s) ob (butlast parts) of
          None \<Rightarrow> Inr s
        | Some cur \<Rightarrow>
            if isArray (fst s) cur then
              censor_elems censor originalPath s cur [0..<length (elems_of (fst s) cur)]
            else if is_object (fst s) cur then
              censor_keys censor originalPath s cur (enum_keys (fst s) cur)
            else Inr s)
     else redactIntermediateWildcard s ob parts censor wildcardIndex originalPath)"

section \<open>redactPaths\<close>

fun redactPaths :: "heap \<times> calls \<Rightarrow> val \<Rightarrow> val list \<Rightarrow> censor \<Rightarrow> error + heap \<times> calls" where
  "redactPaths s ob [] censor = Inr s"
| "redactPaths s ob (path # paths) censor =
    (case path_parts (fst s) path of
       Inl e \<Rightarrow> Inl e
     | Inr parts \<Rightarrow>
         (case (if ''*'' \<in> set parts then redactWildcardPath s ob parts censor path
                else (let (h, log) = s;
                          (actualCensor, log1) = call_censor censor log (getValue h ob parts) path
                      in case setValue h ob parts actualCensor of
                           Inl e \<Rightarrow> Inl e
                         | Inr (h1, applied) \<Rightarrow> Inr (h1, log1))) of
            Inl e \<Rightarrow> Inl e
          | Inr s1 \<Rightarrow> redactPaths s1 ob paths censor))"

section \<open>JSON.stringify\<close>

text \<open>The data \<open>JSON.stringify\<close> reads off the store, as a tree. A date is an object of kind
  date on which the lookups of \<open>toJSON\<close>, \<open>valueOf\<close> and \<open>toISOString\<close> find the methods of
  \<open>Date.prototype\<close>; an array is written by its elements and any other object by its
  enumerable own properties; a function is written like \<open>undefined\<close>. \<open>tree_of\<close> fails
  (\<open>None\<close>) on another object that has a function under \<open>toJSON\<close>, on the built-in
  objects other than functions, on numbers written with an exponent, on dangling
  addresses, and when the structure is deeper than the fuel, in particular when it is
  cyclic.\<close>

datatype jv = JUndef | JNull | JBool bool | JNum int | JStr string | JDate int
  | JArr "jv list" | JObj "(string \<times> jv) list"

definition is_std_date :: "heap \<Rightarrow> val \<Rightarrow> bool" where
  "is_std_date h v =
    (get_prop h v ''toJSON'' = VBuiltin (Method ''Date.prototype'' ''toJSON'')
     \<and> get_prop h v ''valueOf'' = VBuiltin (Method ''Date.prototype'' ''valueOf'')
     \<and> get_prop h v ''toISOString'' = VBuiltin (Method ''Date.prototype'' ''toISOString''))"

fun tree_of :: "nat \<Rightarrow> heap \<Rightarrow> val \<Rightarrow> jv option"
  and trees_of :: "nat \<Rightarrow> heap \<Rightarrow> val list \<Rightarrow> jv list option"
  and trees_of_props :: "nat \<Rightarrow> heap \<Rightarrow> (string \<times> val) list \<Rightarrow> (string \<times> jv) list option"
where
  "tree_of 0 h v = None"
| "tree_of (Suc n) h VUndef = Some JUndef"
| "tree_of (Suc n) h VNull = Some JNull"
| "tree_of (Suc n) h (VBool b) = Some (JBool b)"
| "tree_of (Suc n) h (VNum i) = (if \<bar>i\<bar> < 10 ^ 21 then Some (JNum i) else None)"
| "tree_of (Suc n) h (VStr s) = Some (JStr s)"
| "tree_of (Suc n) h (VBuiltin b) = (if typeof h (VBuiltin b) = TFunction then Some JUndef else None)"
| "tree_of (Suc n) h (VRef a) =
    (if a < length h then
       (case h ! a of Obj k proto ps hs \<Rightarrow>
          if typeof h (get_prop h (VRef a) ''toJSON'') = TFunction then
            (case k of
               KDate t \<Rightarrow> if is_std_date h (VRef a) then Some (JDate t) else None
             | _ \<Rightarrow> None)
          else
            (case k of
               KFun c \<Rightarrow> Some JUndef
             | KArr xs \<Rightarrow> map_option JArr (trees_of n h xs)
             | _ \<Rightarrow> if distinct (map fst ps) then map_option JObj (trees_of_props n h ps) else None))
     else None)"
| "trees_of n h [] = Some []"
| "trees_of n h (x # xs) =
    (case tree_of n h x of
       None \<Rightarrow> None
     | Some t \<Rightarrow> (case trees_of n h xs of None \<Rightarrow> None | Some ts \<Rightarrow> Some (t # ts)))"
| "trees_of_props n h [] = Some []"
| "trees_of_props n h (p # ps) =
    (case tree_of n h (snd p) of
       None \<Rightarrow> None
     | Some t \<Rightarrow>
         (case trees_of_props n h ps of None \<Rightarrow> None | Some ts \<Rightarrow> Some ((fst p, t) # ts)))"

definition hex_char :: "nat \<Rightarrow> char" where
  "hex_char d = (if d < 10 then char_of (48 + d) else char_of (87 + d))"

definition json_char :: "char \<Rightarrow> string" where
  \<open>json_char c =
    (let n = (of_char c :: nat) in
     if c = CHR ''"'' then [CHR 0x5C, CHR ''"'']
     else if n = 0x5C then [CHR 0x5C, CHR 0x5C]
     else if n = 8 then [CHR 0x5C, CHR ''b'']
     else if n = 9 then [CHR 0x5C, CHR ''t'']
     else if n = 10 then [CHR 0x5C, CHR ''n'']
     else if n = 12 then [CHR 0x5C, CHR ''f'']
     else if n = 13 then [CHR 0x5C, CHR ''r'']
     else if n < 32 then [CHR 0x5C, CHR ''u'', CHR ''0'', CHR ''0'', hex_char (n div 16), hex_char (n mod 16)]
     else [c])\<close>

definition json_quote :: "string \<Rightarrow> string" where
  \<open>json_quote s = [CHR ''"''] @ concat (map json_char s) @ [CHR ''"'']\<close>

definition pad :: "nat \<Rightarrow> nat \<Rightarrow> string" where
  "pad w n = replicate (w - length (show_nat n)) CHR ''0'' @ show_nat n"

text \<open>\<open>Date.prototype.toISOString\<close> for a time value in milliseconds.\<close>

definition toISOString :: "int \<Rightarrow> string" where
  "toISOString t =
    (let days = t div 86400000; ms = nat (t mod 86400000);
         z = days + 719468; era = z div 146097; doe = z mod 146097;
         yoe = (doe - doe div 1460 + doe div 36524 - doe div 146096) div 365;
         doy = doe - (365 * yoe + yoe div 4 - yoe div 100);
         mp = (5 * doy + 2) div 153;
         d = doy - (153 * mp + 2) div 5 + 1;
         m = (if mp < 10 then mp + 3 else mp - 9);
         y = yoe + era * 400 + (if m \<le> 2 then 1 else 0)
     in (if 0 \<le> y \<and> y \<le> 9999 then pad 4 (nat y)
         else (if y < 0 then ''-'' else ''+'') @ pad 6 (nat \<bar>y\<bar>))
        @ ''-'' @ pad 2 (nat m) @ ''-'' @ pad 2 (nat d) @ ''T''
        @ pad 2 (ms div 3600000) @ '':'' @ pad 2 (ms div 60000 mod 60) @ '':''
        @ pad 2 (ms div 1000 mod 60) @ ''.'' @ pad 3 (ms mod 1000) @ ''Z'')"

fun join_comma :: "string list \<Rightarrow> string" where
  "join_comma [] = []"
| "join_comma [x] = x"
| "join_comma (x # xs) = x @ '','' @ join_comma xs"

fun json_text :: "jv \<Rightarrow> string option"
  and json_items :: "jv list \<Rightarrow> string list"
  and json_members :: "(string \<times> jv) list \<Rightarrow> string list"
where
  "json_text JUndef = None"
| "json_text JNull = Some ''null''"
| "json_text (JBool b) = Some (if b then ''true'' else ''false'')"
| "json_text (JNum i) = Some (show_int i)"
| "json_text (JStr s) = Some (json_quote s)"
| "json_text (JDate t) =
    Some (if \<bar>t\<bar> \<le> 8640000000000000 then json_quote (toISOString t) else ''null'')"
| "json_text (JArr xs) = Some (''['' @ join_comma (json_items xs) @ '']'')"
| "json_text (JObj ps) = Some (''{'' @ join_comma (json_members ps) @ ''}'')"
| "json_items [] = []"
| "json_items (x # xs) = (case json_text x of None \<Rightarrow> ''null'' | Some s \<Rightarrow> s) # json_items xs"
| "json_members [] = []"
| "json_members (p # ps) =
    (case json_text (snd p) of
       None \<Rightarrow> json_members ps
     | Some s \<Rightarrow> (json_quote (fst p) @ '':'' @ s) # json_members ps)"

text \<open>The host's \<open>JSON.stringify\<close>; the values \<open>tree_of\<close> fails on get the outcome
  \<open>Unmodelled\<close>.\<close>

definition JSON_stringify :: "heap \<Rightarrow> val \<Rightarrow> error + val" where
  "JSON_stringify h v =
    (case tree_of (Suc (length h)) h v of
       None \<Rightarrow> Inl Unmodelled
     | Some t \<Rightarrow> (case json_text t of None \<Rightarrow> Inr VUndef | Some s \<Rightarrow> Inr (VStr s)))"

section \<open>slowRedact\<close>

datatype serializer = SerFalse | SerFun "heap \<Rightarrow> val \<Rightarrow> error + val" | SerOther bool

record config =
  cfg_paths :: "val list"
  cfg_censor :: censor
  cfg_serialize :: serializer
  cfg_strict :: bool

datatype paths_arg = NotArray | Array "val list"

record options =
  opt_paths :: "paths_arg option"
  opt_censor :: "censor option"
  opt_serialize :: "serializer option"
  opt_strict :: "bool option"

text \<open>\<open>serialize ? serialize(obj) : obj\<close>\<close>

definition passthrough :: "serializer \<Rightarrow> heap \<Rightarrow> val \<Rightarrow> error + heap \<times> calls \<times> val" where
  "passthrough serialize h ob =
    (case serialize of
       SerFalse \<Rightarrow> Inr (h, [], ob)
     | SerFun f \<Rightarrow> (case f h ob of Inl e \<Rightarrow> Inl e | Inr r \<Rightarrow> Inr (h, [], r))
     | SerOther truthy \<Rightarrow> if truthy then Inl (TypeError NotAFunction) else Inr (h, [], ob))"

text \<open>The function expression \<open>function () { return deepClone(original) }\<close>: a new
  function object, with the own properties every such function has and with its own new
  \<open>prototype\<close> object.\<close>

definition new_restore :: "heap \<Rightarrow> val \<Rightarrow> heap \<times> val" where
  "new_restore h original =
    (h @ [Obj (KFun (Restore original)) (VBuiltin (Proto CFunction)) []
            [(''length'', VNum 0, False), (''name'', VStr [], False),
             (''prototype'', VRef (Suc (length h)), True)],
          Obj KPlain (VBuiltin (Proto CObject)) [] [(''constructor'', VRef (length h), True)]],
     VRef (length h))"

definition finish :: "serializer \<Rightarrow> heap \<times> calls \<Rightarrow> val \<Rightarrow> val \<Rightarrow> error + heap \<times> calls \<times> val" where
  "finish serialize s cloned original =
    (let (h, log) = s in
     case serialize of
       SerFalse \<Rightarrow>
         (let (h1, restore) = new_restore h original in
          case set_prop h1 cloned ''restore'' restore of
            Inl e \<Rightarrow> Inl e
          | Inr h2 \<Rightarrow> Inr (h2, log, cloned))
     | SerFun f \<Rightarrow> (case f h cloned of Inl e \<Rightarrow> Inl e | Inr r \<Rightarrow> Inr (h, log, r))
     | SerOther truthy \<Rightarrow>
         (case JSON_stringify h cloned of Inl e \<Rightarrow> Inl e | Inr r \<Rightarrow> Inr (h, log, r)))"

definition redact :: "config \<Rightarrow> nat \<Rightarrow> heap \<Rightarrow> val \<Rightarrow> (error + heap \<times> calls \<times> val) option" where
  "redact cfg fuel h ob =
    (if cfg_strict cfg \<and> (ob = VNull \<or> typeof h ob \<noteq> TObject)
        \<and> (ob = VNull \<or> ob = VUndef \<or> typeof h ob \<noteq> TObject)
     then Some (passthrough (cfg_serialize cfg) h ob)
     else
       (case deepClone fuel h ob of
          None \<Rightarrow> None
        | Some (Inl e) \<Rightarrow> Some (Inl e)
        | Some (Inr (h1, cloned)) \<Rightarrow>
            (case deepClone fuel h1 ob of
               None \<Rightarrow> None
             | Some (Inl e) \<Rightarrow> Some (Inl e)
             | Some (Inr (h2, original)) \<Rightarrow>
                 Some (case redactPaths (h2, []) cloned (cfg_paths cfg) (cfg_censor cfg) of
                         Inl e \<Rightarrow> Inl e
                       | Inr s \<Rightarrow> finish (cfg_serialize cfg) s cloned original))))"

definition slowRedact :: "options \<Rightarrow> error + config" where
  "slowRedact opts =
    (let paths = (case opt_paths opts of None \<Rightarrow> Array [] | Some p \<Rightarrow> p);
         censor = (case opt_censor opts of None \<Rightarrow> CLit (VStr ''[REDACTED]'') | Some c \<Rightarrow> c);
         serialize = (case opt_serialize opts of None \<Rightarrow> SerFun JSON_stringify | Some f \<Rightarrow> f);
         strict = (case opt_strict opts of None \<Rightarrow> True | Some b \<Rightarrow> b)
     in case paths of
          NotArray \<Rightarrow> Inl (TypeError PathsMustBeArray)
        | Array ps \<Rightarrow>
            Inr \<lparr>cfg_paths = ps, cfg_censor = censor, cfg_serialize = serialize, cfg_strict = strict\<rparr>)"

text \<open>Calling the \<open>restore\<close> function attached to a result.\<close>

definition call_restore :: "nat \<Rightarrow> heap \<Rightarrow> val \<Rightarrow> (error + heap \<times> val) option" where
  "call_restore fuel h f =
    (case f of
       VRef a \<Rightarrow> (case kind_of (obj_at h a) of KFun (Restore original) \<Rightarrow> deepClone fuel h original
                  | _ \<Rightarrow> None)
     | _ \<Rightarrow> None)"

definition default_options :: options where
  "default_options = \<lparr>opt_paths = None, opt_censor = None, opt_serialize = None, opt_strict = None\<rparr>"

definition run :: "options \<Rightarrow> nat \<Rightarrow> heap \<Rightarrow> val \<Rightarrow> (error + heap \<times> calls \<times> val) option" where
  "run opts fuel h ob = (case slowRedact opts of Inl e \<Rightarrow> Some (Inl e) | Inr cfg \<Rightarrow> redact cfg fuel h ob)"

section \<open>Objects as written in a program\<close>

text \<open>The object a literal \<open>{k1: v1, ...}\<close> creates, the array a literal \<open>[x1, ...]\<close> creates,
  and the two objects a function expression \<open>name = function () { ... }\<close> without
  parameters creates: the function, here with the enumerable properties added to it
  later, and the object under its \<open>prototype\<close>.\<close>

definition plain :: "(string \<times> val) list \<Rightarrow> obj" where
  "plain ps = Obj KPlain (VBuiltin (Proto CObject)) ps []"

definition array :: "val list \<Rightarrow> obj" where
  "array xs = Obj (KArr xs) (VBuiltin (Proto CArray)) [] []"

definition func :: "string \<Rightarrow> (string \<times> val) list \<Rightarrow> addr \<Rightarrow> obj" where
  "func name ps p =
    Obj (KFun Opaque) (VBuiltin (Proto CFunction)) ps
      [(''length'', VNum 0, False), (''name'', VStr name, False), (''prototype'', VRef p, True)]"

definition func_prototype :: "addr \<Rightarrow> obj" where
  "func_prototype f = Obj KPlain (VBuiltin (Proto CObject)) [] [(''constructor'', VRef f, True)]"

section \<open>Path strings as written by a caller\<close>

text \<open>A path string is a sequence of segments in dotted, bracketed or quoted-bracketed
  notation. \<open>render_path\<close> writes the segments out; the first dotted segment carries no
  leading dot.\<close>

datatype segment = Dotted string | Bracketed string | Quoted char string

fun seg_key :: "segment \<Rightarrow> string" where
  "seg_key (Dotted k) = k"
| "seg_key (Bracketed k) = k"
| "seg_key (Quoted q k) = k"

fun render_segment :: "segment \<Rightarrow> string" where
  "render_segment (Dotted k) = ''.'' @ k"
| "render_segment (Bracketed k) = ''['' @ k @ '']''"
| "render_segment (Quoted q k) = ''['' @ [q] @ k @ [q] @ '']''"

fun render_path :: "segment list \<Rightarrow> string" where
  "render_path (Dotted k # segs) = k @ concat (map render_segment segs)"
| "render_path segs = concat (map render_segment segs)"

text \<open>The characters a key may contain in each notation: a dotted key has no dot and no
  opening bracket; a bracketed key has no bracket and no quote; a quoted key has no bracket
  and not the quote that wraps it.\<close>

fun wf_segment :: "segment \<Rightarrow> bool" where
  "wf_segment (Dotted k) = list_all (\<lambda>c. c \<noteq> CHR ''.'' \<and> c \<noteq> CHR ''['') k"
| \<open>wf_segment (Bracketed k) =
    list_all (\<lambda>c. c \<noteq> CHR ''['' \<and> c \<noteq> CHR '']'' \<and> c \<noteq> CHR ''"'' \<and> c \<noteq> CHR 0x27) k\<close>
| \<open>wf_segment (Quoted q k) =
    ((q = CHR ''"'' \<or> q = CHR 0x27) \<and> list_all (\<lambda>c. c \<noteq> CHR ''['' \<and> c \<noteq> CHR '']'' \<and> c \<noteq> q) k)\<close>

text \<open>Values that point into the store, as opposed to primitives, \<open>null\<close>, \<open>undefined\<close> and
  the built-in objects.\<close>

fun is_ref :: "val \<Rightarrow> bool" where
  "is_ref (VRef a) = True"
| "is_ref v = False"

text \<open>The segments the parser has produced so far, counting the one being accumulated.\<close>

definition pending :: "pstate \<Rightarrow> string list" where
  "pending s = st_parts (push_current s)"

section \<open>Notions used to state the properties\<close>

text \<open>The value a sequence of segments leads to from a root: each segment is read as a
  property of the value reached so far (a read on \<open>null\<close> or \<open>undefined\<close> is taken to give
  \<open>undefined\<close>, so that a path that breaks off leads to \<open>undefined\<close>).\<close>

definition leads_to :: "heap \<Rightarrow> val \<Rightarrow> string list \<Rightarrow> val" where
  "leads_to h root segs = foldl (get_prop h) root segs"


text \<open>What the censor yields for a value and a path, and the call it adds to the record of
  calls.\<close>

definition censored :: "censor \<Rightarrow> val \<Rightarrow> val \<Rightarrow> val" where
  "censored censor v path = (case censor of CLit x \<Rightarrow> x | CFun f \<Rightarrow> f v path)"

definition logged :: "censor \<Rightarrow> val \<Rightarrow> val \<Rightarrow> calls" where
  "logged censor v path = (case censor of CLit x \<Rightarrow> [] | CFun f \<Rightarrow> [(v, path)])"

text \<open>The keys of an object that a \<open>for ... in\<close> loop visits after the own ones: the
  inherited enumerable keys.\<close>

definition inherited_keys :: "heap \<Rightarrow> addr \<Rightarrow> string list" where
  "inherited_keys h a = drop (length (props_of (obj_at h a))) (enum_keys h (VRef a))"





section \<open>The path parser\<close>

lemma fold_literal_outside:
  "\<not> st_inBrackets s \<Longrightarrow> list_all (\<lambda>c. c \<noteq> CHR ''.'' \<and> c \<noteq> CHR ''['') k \<Longrightarrow>
   foldl parse_char s k = s\<lparr>st_current := st_current s @ k\<rparr>"
  by (induction k arbitrary: s) (auto simp: parse_char_def)

lemma fold_literal_bracket:
  \<open>st_inBrackets s \<Longrightarrow> \<not> st_inQuotes s \<Longrightarrow>
   list_all (\<lambda>c. c \<noteq> CHR ''['' \<and> c \<noteq> CHR '']'' \<and> c \<noteq> CHR ''"'' \<and> c \<noteq> CHR 0x27) k \<Longrightarrow>
   foldl parse_char s k = s\<lparr>st_current := st_current s @ k\<rparr>\<close>
  by (induction k arbitrary: s) (auto simp: parse_char_def)

lemma fold_literal_quoted:
  \<open>st_inBrackets s \<Longrightarrow> st_inQuotes s \<Longrightarrow> st_quoteChar s = [q] \<Longrightarrow>
   list_all (\<lambda>c. c \<noteq> CHR ''['' \<and> c \<noteq> CHR '']'' \<and> c \<noteq> q) k \<Longrightarrow>
   foldl parse_char s k = s\<lparr>st_current := st_current s @ k\<rparr>\<close>
  by (induction k arbitrary: s) (auto simp: parse_char_def)

lemma parse_segment:
  assumes "\<not> st_inBrackets s" "\<not> st_inQuotes s" "wf_segment seg"
  shows "\<not> st_inBrackets (foldl parse_char s (render_segment seg))
       \<and> \<not> st_inQuotes (foldl parse_char s (render_segment seg))
       \<and> pending (foldl parse_char s (render_segment seg))
           = pending s @ (if seg_key seg = [] then [] else [seg_key seg])"
proof (cases seg)
  case (Dotted k)
  define s1 where "s1 = push_current s"
  have e1: "foldl parse_char s (render_segment seg) = foldl parse_char (parse_char s CHR ''.'') k"
    using Dotted by simp
  have e2: "parse_char s CHR ''.'' = s1" using assms(1) by (simp add: parse_char_def s1_def)
  have nb: "\<not> st_inBrackets s1" using assms(1) by (simp add: s1_def push_current_def)
  have e3: "foldl parse_char s1 k = s1\<lparr>st_current := st_current s1 @ k\<rparr>"
    using fold_literal_outside[OF nb] assms(3) Dotted by simp
  show ?thesis unfolding e1 e2 e3 using assms(1,2) Dotted
    by (simp add: s1_def push_current_def pending_def)
next
  case (Bracketed k)
  define s1 where "s1 = (push_current s)\<lparr>st_inBrackets := True\<rparr>"
  define s2 where "s2 = s1\<lparr>st_current := st_current s1 @ k\<rparr>"
  have e1: "foldl parse_char s (render_segment seg)
      = parse_char (foldl parse_char (parse_char s CHR ''['') k) CHR '']''"
    using Bracketed by simp
  have e2: "parse_char s CHR ''['' = s1" by (simp add: parse_char_def s1_def)
  have b: "st_inBrackets s1" "\<not> st_inQuotes s1"
    using assms(2) by (simp_all add: s1_def push_current_def)
  have e3: "foldl parse_char s1 k = s2"
    using fold_literal_bracket[OF b] assms(3) Bracketed by (simp add: s2_def)
  have e4: "parse_char s2 CHR '']'' = (push_current s2)\<lparr>st_inBrackets := False, st_inQuotes := False\<rparr>"
    using b by (simp add: parse_char_def s2_def)
  show ?thesis unfolding e1 e2 e3 e4 using assms(1,2) Bracketed
    by (simp add: s2_def s1_def push_current_def pending_def)
next
  case (Quoted q k)
  define s1 where "s1 = (push_current s)\<lparr>st_inBrackets := True\<rparr>"
  define s2 where "s2 = s1\<lparr>st_inQuotes := True, st_quoteChar := [q]\<rparr>"
  define s3 where "s3 = s2\<lparr>st_current := st_current s2 @ k\<rparr>"
  define s4 where "s4 = s3\<lparr>st_inQuotes := False, st_quoteChar := []\<rparr>"
  have q: \<open>q = CHR ''"'' \<or> q = CHR 0x27\<close> using assms(3) Quoted by simp
  have e1: "foldl parse_char s (render_segment seg)
      = parse_char (parse_char (foldl parse_char (parse_char (parse_char s CHR ''['') q) k) q) CHR '']''"
    using Quoted by simp
  have e2: "parse_char s CHR ''['' = s1" by (simp add: parse_char_def s1_def)
  have b1: "st_inBrackets s1" "\<not> st_inQuotes s1"
    using assms(2) by (simp_all add: s1_def push_current_def)
  have e3: "parse_char s1 q = s2" using q b1 by (auto simp: parse_char_def s2_def)
  have b2: "st_inBrackets s2" "st_inQuotes s2" "st_quoteChar s2 = [q]"
    using b1 by (simp_all add: s2_def)
  have e4: "foldl parse_char s2 k = s3"
    using fold_literal_quoted[OF b2] assms(3) Quoted by (simp add: s3_def)
  have b3: "st_inBrackets s3" "st_inQuotes s3" "st_quoteChar s3 = [q]"
    using b2 by (simp_all add: s3_def)
  have e5: "parse_char s3 q = s4" using q b3 by (auto simp: parse_char_def s4_def)
  have b4: "st_inBrackets s4" using b3 by (simp add: s4_def)
  have e6: "parse_char s4 CHR '']'' = (push_current s4)\<lparr>st_inBrackets := False, st_inQuotes := False\<rparr>"
    using b4 by (simp add: parse_char_def)
  show ?thesis unfolding e1 e2 e3 e4 e5 e6 using assms(1,2) Quoted
    by (simp add: s4_def s3_def s2_def s1_def push_current_def pending_def)
qed

lemma parse_segments:
  "\<not> st_inBrackets s \<Longrightarrow> \<not> st_inQuotes s \<Longrightarrow> list_all wf_segment segs \<Longrightarrow>
   pending (foldl parse_char s (concat (map render_segment segs)))
     = pending s @ filter (\<lambda>k. k \<noteq> []) (map seg_key segs)"
proof (induction segs arbitrary: s)
  case Nil
  then show ?case by simp
next
  case (Cons seg segs)
  from parse_segment[OF Cons.prems(1,2), of seg] Cons.prems(3)
  have *: "\<not> st_inBrackets (foldl parse_char s (render_segment seg))"
      "\<not> st_inQuotes (foldl parse_char s (render_segment seg))"
      "pending (foldl parse_char s (render_segment seg))
           = pending s @ (if seg_key seg = [] then [] else [seg_key seg])"
    by simp_all
  show ?case using Cons.IH[OF *(1,2)] Cons.prems(3) *(3) by simp
qed

lemma parsePath_render_dotted:
  assumes "list_all wf_segment (Dotted k # rest)"
  shows "parsePath (render_path (Dotted k # rest))
    = filter (\<lambda>k. k \<noteq> []) (map seg_key (Dotted k # rest))"
proof -
  have init: "\<not> st_inBrackets parse_init" by (simp add: parse_init_def)
  have k: "list_all (\<lambda>c. c \<noteq> CHR ''.'' \<and> c \<noteq> CHR ''['') k" using assms by simp
  define s1 where "s1 = parse_init\<lparr>st_current := k\<rparr>"
  have "foldl parse_char parse_init k = s1"
    using fold_literal_outside[OF init k] by (simp add: parse_init_def s1_def)
  then have "parsePath (render_path (Dotted k # rest))
      = pending (foldl parse_char s1 (concat (map render_segment rest)))"
    by (simp add: parsePath_def pending_def)
  also have "\<dots> = pending s1 @ filter (\<lambda>k. k \<noteq> []) (map seg_key rest)"
    using parse_segments[of s1 rest] assms by (simp add: parse_init_def s1_def)
  finally show ?thesis by (simp add: pending_def push_current_def parse_init_def s1_def)
qed

lemma parsePath_render_other:
  assumes "list_all wf_segment segs"
  shows "parsePath (concat (map render_segment segs)) = filter (\<lambda>k. k \<noteq> []) (map seg_key segs)"
  using parse_segments[of parse_init segs] assms
  by (simp add: parsePath_def pending_def parse_init_def push_current_def)

lemma parsePath_render:
  assumes "list_all wf_segment segs"
  shows "parsePath (render_path segs) = filter (\<lambda>k. k \<noteq> []) (map seg_key segs)"
proof (cases segs)
  case Nil
  then show ?thesis using parsePath_render_other[of "[]"] by simp
next
  case (Cons seg rest)
  show ?thesis
  proof (cases seg)
    case (Dotted k)
    then show ?thesis using parsePath_render_dotted assms Cons by simp
  next
    case (Bracketed k)
    then show ?thesis using parsePath_render_other[OF assms] Cons by simp
  next
    case (Quoted q k)
    then show ?thesis using parsePath_render_other[OF assms] Cons by simp
  qed
qed

text \<open>
  C9. Parsing is one left-to-right pass over the characters (\<open>parsePath\<close> is a \<open>foldl\<close> of
  \<open>parse_char\<close>). For a path written as a sequence of dotted, bracketed and quoted-bracketed
  segments the pass returns exactly the keys of the segments, in order: a dot outside
  brackets ends a segment, empty segments are dropped, \<open>[\<close> opens and \<open>]\<close> closes a bracketed
  segment, wrapping quotes are stripped and do not end the segment, and a dot inside
  brackets is an ordinary character of the key. The parsed path contains the wildcard marker
  exactly when one of its segments is \<open>*\<close> as a whole.
\<close>

theorem C9_parsePath_segments:
  assumes "list_all wf_segment segs"
  shows "parsePath (render_path segs) = filter (\<lambda>k. k \<noteq> []) (map seg_key segs)
    \<and> (''*'' \<in> set (parsePath (render_path segs)) \<longleftrightarrow> (\<exists>seg \<in> set segs. seg_key seg = ''*''))"
proof -
  have "''*'' \<in> set (filter (\<lambda>k. k \<noteq> []) (map seg_key segs))
      \<longleftrightarrow> (\<exists>seg \<in> set segs. seg_key seg = ''*'')"
    by (induction segs) auto
  then show ?thesis using parsePath_render[OF assms] by simp
qed

theorem C9_parsePath_segments_witness:
  \<open>list_all wf_segment [Quoted (CHR ''"'') ''weird-key'', Quoted (CHR ''"'') ''inner'']
   \<and> render_path [Quoted (CHR ''"'') ''weird-key'', Quoted (CHR ''"'') ''inner''] = ''["weird-key"]["inner"]''
   \<and> parsePath ''["weird-key"]["inner"]'' = [''weird-key'', ''inner'']\<close>
  using C9_parsePath_segments[of \<open>[Quoted (CHR ''"'') ''weird-key'', Quoted (CHR ''"'') ''inner'']\<close>]
  by simp


section \<open>Construction\<close>

text \<open>
  C2. (Construction-time validation of the path entries.) \<open>slowRedact\<close> only tests that
  \<open>paths\<close> is an array: whatever the entries are, among them \<open>'a..b'\<close>, \<open>'a[b'\<close>, \<open>123\<close> and
  \<open>''\<close>, construction succeeds and returns a redaction function configured with them.
\<close>

theorem C2_construction_accepts_any_entries:
  "slowRedact (default_options\<lparr>opt_paths := Some (Array ps)\<rparr>)
     = Inr \<lparr>cfg_paths = ps, cfg_censor = CLit (VStr ''[REDACTED]''),
            cfg_serialize = SerFun JSON_stringify, cfg_strict = True\<rparr>"
  by (simp add: slowRedact_def default_options_def)

section \<open>Strict mode and primitive inputs\<close>

text \<open>
  C7. With strict mode enabled, an input that is \<open>null\<close>, \<open>undefined\<close> or not of type
  object is returned through the serializer, or as it is when serialization is disabled.
  The store is the one the call started with (nothing was cloned, even with no fuel for
  \<open>deepClone\<close>) and the censor was never called (no path was applied).
\<close>

theorem C7_strict_passthrough:
  assumes "cfg_strict cfg" "ob = VNull \<or> typeof h ob \<noteq> TObject"
  shows "(\<forall>f. cfg_serialize cfg = SerFun f \<longrightarrow>
            redact cfg fuel h ob = Some (case f h ob of Inl e \<Rightarrow> Inl e | Inr r \<Rightarrow> Inr (h, [], r)))
       \<and> (cfg_serialize cfg = SerFalse \<longrightarrow> redact cfg fuel h ob = Some (Inr (h, [], ob)))"
  using assms by (auto simp: redact_def passthrough_def)

theorem C7_strict_passthrough_witness:
  "slowRedact default_options
     = Inr \<lparr>cfg_paths = [], cfg_censor = CLit (VStr ''[REDACTED]''),
            cfg_serialize = SerFun JSON_stringify, cfg_strict = True\<rparr>
   \<and> typeof [] (VNum 42) \<noteq> TObject
   \<and> redact \<lparr>cfg_paths = [], cfg_censor = CLit (VStr ''[REDACTED]''),
            cfg_serialize = SerFun JSON_stringify, cfg_strict = True\<rparr> 0 [] (VNum 42)
       = Some (Inr ([], [], VStr ''42''))"
proof -
  have enc: "JSON_stringify [] (VNum 42) = Inr (VStr ''42'')" by code_simp
  show ?thesis
    using C7_strict_passthrough[of "\<lparr>cfg_paths = [], cfg_censor = CLit (VStr ''[REDACTED]''),
            cfg_serialize = SerFun JSON_stringify, cfg_strict = True\<rparr>" "VNum 42" "[]" 0]
    by (simp add: enc slowRedact_def default_options_def)
qed

lemma builtin_slot_prim: "builtin_slot b key = Some (Data x w) \<Longrightarrow> \<not> is_ref x"
  by (auto simp: builtin_slot_def split: builtin.splits if_splits)

lemma builtin_parent_prim: "\<not> is_ref (builtin_parent b)"
  by (auto simp: builtin_parent_def split: builtin.splits)

lemma find_slot_prim:
  "\<not> is_ref v \<Longrightarrow> find_slot n h v key = Some (Data x w) \<Longrightarrow> \<not> is_ref x"
proof (induction n arbitrary: v)
  case 0
  then show ?case by simp
next
  case (Suc n)
  show ?case
  proof (cases v)
    case (VBuiltin b)
    show ?thesis
    proof (cases "builtin_slot b key")
      case None
      then have "find_slot n h (builtin_parent b) key = Some (Data x w)"
        using Suc.prems(2) VBuiltin by simp
      then show ?thesis using Suc.IH[OF builtin_parent_prim] by blast
    next
      case (Some s)
      then show ?thesis using Suc.prems(2) VBuiltin builtin_slot_prim by auto
    qed
  qed (use Suc.prems in auto)
qed

lemma prototype_of_prim: "\<not> is_ref v \<Longrightarrow> \<not> is_ref (prototype_of h v)"
  by (cases v) (auto simp: builtin_parent_prim)

lemma read_slot_prim:
  assumes "\<not> is_ref v" "\<not> is_ref start"
  shows "\<not> is_ref (read_slot h v (find_slot n h start key))"
proof (cases "find_slot n h start key")
  case None
  then show ?thesis by (simp add: read_slot_def)
next
  case (Some s)
  show ?thesis
  proof (cases s)
    case (Data x w)
    then show ?thesis using Some find_slot_prim[OF assms(2)] by (simp add: read_slot_def)
  next
    case ProtoAccessor
    then show ?thesis using Some prototype_of_prim[OF assms(1)] by (simp add: read_slot_def)
  qed
qed

lemma get_prop_prim: "\<not> is_ref v \<Longrightarrow> \<not> is_ref (get_prop h v key)"
proof (cases v)
  case (VStr s)
  show ?thesis
  proof (cases "string_slot s key")
    case None
    then show ?thesis using VStr read_slot_prim[of "VStr s" "VBuiltin (Proto CString)"] by simp
  next
    case (Some y)
    then show ?thesis using VStr by (auto simp: string_slot_def split: option.splits if_splits)
  qed
next
  case (VNum i)
  then show ?thesis using read_slot_prim[of "VNum i" "VBuiltin (Proto CNumber)"] by simp
next
  case (VBool b)
  then show ?thesis using read_slot_prim[of "VBool b" "VBuiltin (Proto CBoolean)"] by simp
next
  case (VBuiltin b)
  then show ?thesis using read_slot_prim[of "VBuiltin b" "VBuiltin b"] by simp
qed auto

lemma walk_prim: "\<not> is_ref v \<Longrightarrow> walk h v ps = Some cur \<Longrightarrow> \<not> is_ref cur"
proof (induction ps arbitrary: v)
  case Nil
  then show ?case by simp
next
  case (Cons p ps)
  from Cons.prems have "walk h (get_prop h v p) ps = Some cur" by (simp split: if_splits)
  with Cons.IH get_prop_prim[OF Cons.prems(1)] show ?case by blast
qed

lemma for_in_prim: "\<not> is_ref v \<Longrightarrow> for_in n h v seen = []"
  by (cases n; cases v) auto

lemma prim_no_branches: "\<not> is_ref v \<Longrightarrow> elems_of h v = [] \<and> enum_keys h v = []"
  by (cases v) (auto simp: elems_of_def enum_keys_def for_in_prim)

lemma traverse_prim_top:
  "\<not> is_ref cur \<Longrightarrow> length pathSoFar \<le> length beforeWildcard \<Longrightarrow>
   traverse censor beforeWildcard afterWildcard s cur pathSoFar = Inr s"
proof (induction "length beforeWildcard - length pathSoFar" arbitrary: cur pathSoFar)
  case 0
  then show ?case using prim_no_branches[of cur "fst s"] by (subst traverse.simps) auto
next
  case (Suc d)
  then have lt: "length pathSoFar < length beforeWildcard" by simp
  have "traverse censor beforeWildcard afterWildcard s
          (get_prop (fst s) cur (beforeWildcard ! length pathSoFar))
          (pathSoFar @ [beforeWildcard ! length pathSoFar]) = Inr s"
    using Suc.hyps(1)[of "pathSoFar @ [beforeWildcard ! length pathSoFar]"
        "get_prop (fst s) cur (beforeWildcard ! length pathSoFar)"]
      Suc.hyps(2) get_prop_prim[OF Suc.prems(1)] lt by simp
  then show ?case using lt by (subst traverse.simps) (simp add: Let_def)
qed

lemma redactIntermediateWildcard_prim:
  assumes "\<not> is_ref ob"
  shows "redactIntermediateWildcard s ob parts censor wildcardIndex originalPath = Inr s"
proof -
  define before where "before = take wildcardIndex parts"
  define after where "after = drop (wildcardIndex + 1) parts"
  have eq: "redactIntermediateWildcard s ob parts censor wildcardIndex originalPath
    = (if length before = 0 then traverse censor before after s ob []
       else (case walk (fst s) ob before of
               None \<Rightarrow> Inr s
             | Some cur \<Rightarrow>
                 if cur \<noteq> VNull \<and> cur \<noteq> VUndef then traverse censor before after s cur before
                 else Inr s))"
    by (simp only: redactIntermediateWildcard_def Let_def before_def after_def)
  have t0: "traverse censor before after s ob [] = Inr s"
    using traverse_prim_top[OF assms, of "[]" before] by simp
  show ?thesis
  proof (cases "walk (fst s) ob before")
    case None
    then show ?thesis unfolding eq using t0 by auto
  next
    case (Some cur)
    then have "\<not> is_ref cur" using walk_prim[OF assms] by blast
    then have "traverse censor before after s cur before = Inr s"
      using traverse_prim_top[of cur before before] by simp
    then show ?thesis unfolding eq using Some t0 by auto
  qed
qed

lemma redactWildcardPath_prim:
  assumes "\<not> is_ref ob"
  shows "redactWildcardPath s ob parts censor originalPath = Inr s"
proof (cases "indexOf_star parts = length parts - 1")
  case True
  obtain h log where s: "s = (h, log)" by (cases s)
  show ?thesis
  proof (cases "walk (fst s) ob (butlast parts)")
    case None
    then show ?thesis using True by (simp add: redactWildcardPath_def)
  next
    case (Some cur)
    then have "\<not> is_ref cur" using walk_prim[OF assms] by blast
    then show ?thesis using True Some prim_no_branches[of cur h] s
      by (simp add: redactWildcardPath_def)
  qed
next
  case False
  then show ?thesis using redactIntermediateWildcard_prim[OF assms]
    by (simp add: redactWildcardPath_def)
qed

lemma has_prop_prim:
  "v = VNull \<or> v = VUndef \<or> (\<exists>b. v = VBool b) \<or> (\<exists>n. v = VNum n) \<or> (\<exists>str. v = VStr str) \<Longrightarrow>
   has_prop h v key = Inl (TypeError InOnNonObject)"
  by (auto simp: has_prop_def)

lemma setValue_prim:
  assumes "ob = VNull \<or> ob = VUndef \<or> (\<exists>b. ob = VBool b) \<or> (\<exists>n. ob = VNum n) \<or> (\<exists>str. ob = VStr str)"
    and "''*'' \<notin> set parts"
  shows "setValue h ob parts x = Inl (TypeError InOnNonObject)"
proof (cases parts)
  case Nil
  then show ?thesis using has_prop_prim[OF assms(1)] by (simp add: set_last_def)
next
  case (Cons k rest)
  then show ?thesis using assms(2) has_prop_prim[OF assms(1)]
    by (cases rest) (auto simp: set_last_def)
qed

lemma redactPaths_prim:
  assumes "ob = VNull \<or> ob = VUndef \<or> (\<exists>b. ob = VBool b) \<or> (\<exists>n. ob = VNum n) \<or> (\<exists>str. ob = VStr str)"
    and "\<forall>p \<in> set paths. \<exists>str. p = VStr str"
    and "\<exists>str. VStr str \<in> set paths \<and> ''*'' \<notin> set (parsePath str)"
  shows "redactPaths s ob paths censor = Inl (TypeError InOnNonObject)"
  using assms(2,3)
proof (induction paths arbitrary: s)
  case Nil
  then show ?case by simp
next
  case (Cons p paths)
  have prim: "\<not> is_ref ob" using assms(1) by auto
  from Cons.prems(1) obtain str where p: "p = VStr str" by auto
  show ?case
  proof (cases "''*'' \<in> set (parsePath str)")
    case True
    with Cons.prems p have "\<exists>str. VStr str \<in> set paths \<and> ''*'' \<notin> set (parsePath str)"
      by auto
    with Cons.IH Cons.prems(1) have "redactPaths s ob paths censor = Inl (TypeError InOnNonObject)"
      by simp
    then show ?thesis using True p redactWildcardPath_prim[OF prim] by (simp add: path_parts_def)
  next
    case False
    then show ?thesis using p setValue_prim[OF assms(1) False]
      by (simp add: split_beta path_parts_def)
  qed
qed

text \<open>
  C10. With strict mode disabled, a root that is \<open>null\<close>, \<open>undefined\<close>, a boolean, a number or
  a string is passed to \<open>redactPaths\<close> as it is; wildcard paths do nothing on it, and the
  first path without a wildcard segment reaches the \<open>in\<close> test of \<open>setValue\<close> with the
  primitive as right operand, which throws a TypeError. (The same path against a container
  in which it does not resolve is skipped: the second part of the witness.)
\<close>

theorem C10_nonstrict_primitive_root_throws:
  assumes "\<not> cfg_strict cfg"
    and "ob = VNull \<or> ob = VUndef \<or> (\<exists>b. ob = VBool b) \<or> (\<exists>n. ob = VNum n) \<or> (\<exists>str. ob = VStr str)"
    and "\<forall>p \<in> set (cfg_paths cfg). \<exists>str. p = VStr str"
    and "\<exists>str. VStr str \<in> set (cfg_paths cfg) \<and> ''*'' \<notin> set (parsePath str)"
  shows "redact cfg (Suc n) h ob = Some (Inl (TypeError InOnNonObject))"
proof -
  have clone: "\<And>h. deepClone (Suc n) h ob = Some (Inr (h, ob))" using assms(2) by auto
  show ?thesis using assms(1) clone redactPaths_prim[OF assms(2,3,4)]
    by (simp add: redact_def)
qed

theorem C10_nonstrict_primitive_root_throws_witness:
  \<open>\<not> cfg_strict \<lparr>cfg_paths = [VStr ''a''], cfg_censor = CLit (VStr ''[REDACTED]''),
            cfg_serialize = SerFun JSON_stringify, cfg_strict = False\<rparr>
   \<and> redact \<lparr>cfg_paths = [VStr ''a''], cfg_censor = CLit (VStr ''[REDACTED]''),
            cfg_serialize = SerFun JSON_stringify, cfg_strict = False\<rparr> 1 [] (VNum 42) = Some (Inl (TypeError InOnNonObject))
   \<and> redact \<lparr>cfg_paths = [VStr ''a''], cfg_censor = CLit (VStr ''[REDACTED]''),
            cfg_serialize = SerFun JSON_stringify, cfg_strict = False\<rparr> 2 [plain [(''b'', VNum 42)]] (VRef 0)
      = Some (Inr ([plain [(''b'', VNum 42)], plain [(''b'', VNum 42)], plain [(''b'', VNum 42)]],
                   [], VStr ''{"b":42}''))\<close>
  using C10_nonstrict_primitive_root_throws[of "\<lparr>cfg_paths = [VStr ''a''], cfg_censor = CLit (VStr ''[REDACTED]''),
            cfg_serialize = SerFun JSON_stringify, cfg_strict = False\<rparr>" "VNum 42" 0 "[]"]
  apply (simp add: parsePath_def parse_char_def parse_init_def push_current_def)
  apply code_simp
  done

section \<open>Invocations that diverge from the documented behaviour\<close>

text \<open>
  C4. (Intermediate wildcard: branches where the suffix does not resolve are skipped.)
  For the path \<open>data.*.nested\<close> and the input \<open>{data: {item1: 123, item2: {nested: 'secret'}}}\<close>
  the branch \<open>item1\<close> holds a number; \<open>setValue\<close> applies \<open>in\<close> to it and the invocation
  ends with a TypeError instead of skipping the branch.
\<close>

theorem C4_primitive_branch_throws:
  "run (default_options\<lparr>opt_paths := Some (Array [VStr ''data.*.nested''])\<rparr>) 4
     [plain [(''data'', VRef 1)],
      plain [(''item1'', VNum 123), (''item2'', VRef 2)],
      plain [(''nested'', VStr ''secret'')]] (VRef 0)
   = Some (Inl (TypeError InOnNonObject))"
  by code_simp

text \<open>
  C1. (The caller's input is never mutated.) The input \<open>{f: fn}\<close> holds a function object
  \<open>fn\<close> with an own property \<open>secret\<close>. \<open>deepClone\<close> returns function objects as they are,
  so the clone and the input share \<open>fn\<close>; the path \<open>*.secret\<close> makes \<open>setValue\<close> overwrite
  \<open>fn.secret\<close>. After the invocation the function object at address 1, which belongs to the
  input, holds \<open>'[REDACTED]'\<close> where it held \<open>'x'\<close>.
\<close>

theorem C1_shared_function_object_mutated:
  "run (default_options\<lparr>opt_paths := Some (Array [VStr ''*.secret'']), opt_serialize := Some SerFalse\<rparr>) 2
     [plain [(''f'', VRef 1)], func ''fn'' [(''secret'', VStr ''x'')] 2, func_prototype 1] (VRef 0)
   = Some (Inr ([plain [(''f'', VRef 1)],
         func ''fn'' [(''secret'', VStr ''[REDACTED]'')] 2, func_prototype 1,
         plain [(''f'', VRef 1), (''restore'', VRef 5)],
         plain [(''f'', VRef 1)],
         Obj (KFun (Restore (VRef 4))) (VBuiltin (Proto CFunction)) []
           [(''length'', VNum 0, False), (''name'', VStr [], False), (''prototype'', VRef 6, True)],
         func_prototype 5],
        [], VRef 3))"
  by code_simp


section \<open>Paths that do not resolve\<close>






section \<open>Numerals as keys\<close>

lemma of_char_digit_char: "d < 10 \<Longrightarrow> (of_char (digit_char d) :: nat) = 48 + d"
  by (simp add: digit_char_def)

lemma is_digit_digit_char: "d < 10 \<Longrightarrow> is_digit (digit_char d)"
  by (simp add: is_digit_def of_char_digit_char)

lemma digit_char_of_char: "is_digit c \<Longrightarrow> digit_char ((of_char c :: nat) - 48) = c"
  by (simp add: digit_char_def is_digit_def)

lemma digit_zero: "is_digit c \<Longrightarrow> c \<noteq> CHR ''0'' \<Longrightarrow> 0 < (of_char c :: nat) - 48"
proof -
  assume d: "is_digit c" and nz: "c \<noteq> CHR ''0''"
  have "(of_char c :: nat) \<noteq> of_char CHR ''0''" using nz by (simp only: of_char_eq_iff) simp
  then have "(of_char c :: nat) \<noteq> 48" by simp
  then show ?thesis using d unfolding is_digit_def by linarith
qed

lemma numeral_value_pos:
  "s \<noteq> [] \<Longrightarrow> list_all is_digit s \<Longrightarrow> hd s \<noteq> CHR ''0'' \<Longrightarrow>
   0 < foldl (\<lambda>n c. 10 * n + ((of_char c :: nat) - 48)) 0 s"
proof (induction s rule: rev_induct)
  case Nil
  then show ?case by simp
next
  case (snoc c s)
  show ?case
  proof (cases "s = []")
    case True
    then show ?thesis using snoc.prems digit_zero[of c] by simp
  next
    case False
    then show ?thesis using snoc by simp
  qed
qed

lemma idx_of_show_nat: "idx_of (show_nat n) = Some n"
proof (induction n rule: show_nat.induct)
  case (1 n)
  show ?case
  proof (cases "n < 10")
    case True
    have s: "show_nat n = [digit_char n]" using True by (simp add: show_nat.simps)
    have z: "digit_char n = CHR ''0'' \<Longrightarrow> [digit_char n] = ''0''" by simp
    show ?thesis unfolding s idx_of_def
      using True is_digit_digit_char[OF True] of_char_digit_char[OF True] by auto
  next
    case False
    define s where "s = show_nat (n div 10)"
    have sn: "show_nat n = s @ [digit_char (n mod 10)]"
      using False by (subst show_nat.simps) (simp add: s_def)
    have ih: "idx_of s = Some (n div 10)" using 1 False by (simp add: s_def)
    then have ne: "s \<noteq> []" and dg: "list_all is_digit s"
      and hd: "hd s \<noteq> CHR ''0'' \<or> s = ''0''"
      and v: "foldl (\<lambda>n c. 10 * n + ((of_char c :: nat) - 48)) 0 s = n div 10"
      by (auto simp: idx_of_def split: if_splits)
    have "s \<noteq> ''0''"
    proof
      assume "s = ''0''"
      then have "n div 10 = 0" using v by simp
      then show False using False by simp
    qed
    then have hd': "hd (s @ [digit_char (n mod 10)]) \<noteq> CHR ''0''" using hd ne by simp
    have m: "n mod 10 < 10" by simp
    show ?thesis unfolding sn idx_of_def
      using ne dg hd' v is_digit_digit_char[OF m] of_char_digit_char[OF m] by simp
  qed
qed

lemma show_nat_idx_of: "idx_of s = Some n \<Longrightarrow> show_nat n = s"
proof (induction s arbitrary: n rule: rev_induct)
  case Nil
  then show ?case by (simp add: idx_of_def)
next
  case (snoc c s)
  from snoc.prems have dg: "list_all is_digit s" and dc: "is_digit c"
    and hd: "hd (s @ [c]) \<noteq> CHR ''0'' \<or> s @ [c] = ''0''"
    and v: "n = 10 * foldl (\<lambda>n c. 10 * n + ((of_char c :: nat) - 48)) 0 s + ((of_char c :: nat) - 48)"
    by (auto simp: idx_of_def split: if_splits)
  have d10: "(of_char c :: nat) - 48 < 10" using dc unfolding is_digit_def by linarith
  show ?case
  proof (cases "s = []")
    case True
    then have "n < 10" using v d10 by simp
    then show ?thesis using True v digit_char_of_char[OF dc] by (simp add: show_nat.simps)
  next
    case False
    then have hs: "hd s \<noteq> CHR ''0''" using hd by (cases s) auto
    have ix: "idx_of s = Some (foldl (\<lambda>n c. 10 * n + ((of_char c :: nat) - 48)) 0 s)"
      using False dg hs by (simp add: idx_of_def)
    have pos: "0 < foldl (\<lambda>n c. 10 * n + ((of_char c :: nat) - 48)) 0 s"
      using numeral_value_pos[OF False dg hs] .
    have ge: "\<not> n < 10" using v pos by simp
    have dv: "n div 10 = foldl (\<lambda>n c. 10 * n + ((of_char c :: nat) - 48)) 0 s"
      and md: "n mod 10 = (of_char c :: nat) - 48"
      using v d10 by simp_all
    have "show_nat n = show_nat (n div 10) @ [digit_char (n mod 10)]"
      using ge by (subst show_nat.simps) simp
    then show ?thesis using snoc.IH[OF ix] dv md digit_char_of_char[OF dc] by simp
  qed
qed


section \<open>Own properties, enumeration and lookup\<close>

lemma chain_fuel_Suc: "chain_fuel h = Suc (length h + 3)"
  by (simp add: chain_fuel_def)

lemma enum_keys_unfold:
  "enum_keys h (VRef a)
   = filter (\<lambda>key. key \<notin> set []) (own_enum_keys (obj_at h a))
     @ for_in (length h + 3) h (proto_of (obj_at h a)) ([] @ own_keys (obj_at h a))"
  by (simp only: enum_keys_def chain_fuel_Suc for_in.simps)

lemma find_slot_fuel:
  "find_slot (chain_fuel h) h (VRef a) key
   = (case own_slot (obj_at h a) key of
        Some s \<Rightarrow> Some s
      | None \<Rightarrow> find_slot (length h + 3) h (proto_of (obj_at h a)) key)"
  by (simp only: chain_fuel_Suc find_slot.simps)

lemma own_enum_slot:
  "key \<in> set (own_enum_keys ob) \<Longrightarrow> \<exists>x. own_slot ob key = Some (Data x True)"
proof -
  assume k: "key \<in> set (own_enum_keys ob)"
  obtain k0 proto ps hs where ob: "ob = Obj k0 proto ps hs" by (cases ob)
  have named: "key \<in> fst ` set ps \<Longrightarrow> \<exists>v. map_of ps key = Some v"
    by (metis domD dom_map_of_conv_image_fst)
  show ?thesis
  proof (cases k0)
    case (KArr xs)
    show ?thesis
    proof (cases "key \<in> set (map show_nat [0..<length xs])")
      case True
      then obtain i where "i < length xs" "key = show_nat i" by auto
      then show ?thesis using ob KArr by (simp add: own_slot_def idx_of_show_nat)
    next
      case False
      then have "key \<in> fst ` set ps" using k ob KArr by (simp add: own_enum_keys_def)
      then obtain v where "map_of ps key = Some v" using named by blast
      then show ?thesis using ob KArr by (auto simp: own_slot_def Let_def split: option.splits)
    qed
  next
    case KPlain
    then have "key \<in> fst ` set ps" using k ob by (simp add: own_enum_keys_def)
    then obtain v where "map_of ps key = Some v" using named by blast
    then show ?thesis using ob KPlain by (simp add: own_slot_def)
  next
    case (KDate t)
    then have "key \<in> fst ` set ps" using k ob by (simp add: own_enum_keys_def)
    then obtain v where "map_of ps key = Some v" using named by blast
    then show ?thesis using ob KDate by (simp add: own_slot_def)
  next
    case (KFun c)
    then have "key \<in> fst ` set ps" using k ob by (simp add: own_enum_keys_def)
    then obtain v where "map_of ps key = Some v" using named by blast
    then show ?thesis using ob KFun by (simp add: own_slot_def)
  qed
qed

lemma not_own_keys_slot: "key \<notin> set (own_keys ob) \<Longrightarrow> own_slot ob key = None"
proof -
  assume k: "key \<notin> set (own_keys ob)"
  obtain k0 proto ps hs where ob: "ob = Obj k0 proto ps hs" by (cases ob)
  have p: "map_of ps key = None" and hh: "map_of hs key = None"
    using k ob by (auto simp: own_keys_def own_enum_keys_def map_of_eq_None_iff)
  show ?thesis
  proof (cases k0)
    case (KArr xs)
    have l: "key \<noteq> ''length''" using k ob KArr by (auto simp: own_keys_def)
    have "\<And>i. idx_of key = Some i \<Longrightarrow> \<not> i < length xs"
    proof
      fix i assume i: "idx_of key = Some i" "i < length xs"
      then have "key = show_nat i" using show_nat_idx_of by simp
      then have "key \<in> set (own_keys ob)" using i ob KArr by (simp add: own_keys_def own_enum_keys_def)
      then show False using k by simp
    qed
    then show ?thesis using ob KArr p hh l by (auto simp: own_slot_def split: option.splits)
  qed (use ob p hh in \<open>simp_all add: own_slot_def\<close>)
qed

lemma for_in_not_seen: "key \<in> set (for_in n h v seen) \<Longrightarrow> key \<notin> set seen"
proof (induction n arbitrary: v seen)
  case 0
  then show ?case by simp
next
  case (Suc n)
  show ?case
  proof (cases v)
    case (VRef a)
    from Suc.prems VRef consider
        "key \<in> set (filter (\<lambda>key. key \<notin> set seen) (own_enum_keys (obj_at h a)))"
      | "key \<in> set (for_in n h (proto_of (obj_at h a)) (seen @ own_keys (obj_at h a)))"
      by auto
    then show ?thesis
    proof cases
      case 1
      then show ?thesis by simp
    next
      case 2
      then show ?thesis using Suc.IH by fastforce
    qed
  qed (use Suc.prems in auto)
qed

lemma for_in_slot:
  "key \<in> set (for_in n h v seen) \<Longrightarrow> \<exists>x. find_slot n h v key = Some (Data x True)"
proof (induction n arbitrary: v seen)
  case 0
  then show ?case by simp
next
  case (Suc n)
  show ?case
  proof (cases v)
    case (VRef a)
    show ?thesis
    proof (cases "key \<in> set (own_enum_keys (obj_at h a))")
      case True
      then show ?thesis using own_enum_slot[OF True] VRef by auto
    next
      case False
      then have in_rest: "key \<in> set (for_in n h (proto_of (obj_at h a)) (seen @ own_keys (obj_at h a)))"
        using Suc.prems VRef by auto
      then have "key \<notin> set (own_keys (obj_at h a))" using for_in_not_seen by fastforce
      then have "own_slot (obj_at h a) key = None" by (rule not_own_keys_slot)
      then show ?thesis using Suc.IH[OF in_rest] VRef by simp
    qed
  qed (use Suc.prems in auto)
qed

lemma find_slot_mono: "find_slot n h v key = Some s \<Longrightarrow> find_slot (Suc n) h v key = Some s"
proof (induction n arbitrary: v)
  case 0
  then show ?case by simp
next
  case (Suc n)
  show ?case
  proof (cases v)
    case (VRef a)
    then show ?thesis using Suc by (cases "own_slot (obj_at h a) key") auto
  next
    case (VBuiltin b)
    then show ?thesis using Suc by (cases "builtin_slot b key") auto
  qed (use Suc.prems in auto)
qed

text \<open>Replacing an object by one with the same prototype and the same own property under
  a key does not change what the lookup of that key finds, wherever it starts.\<close>

lemma obj_at_update:
  "a < length h \<Longrightarrow> obj_at (h[a := ob]) b = (if b = a then ob else obj_at h b)"
  by (simp add: obj_at_def)

lemma find_slot_update:
  assumes "a < length h" "own_slot ob key = own_slot (obj_at h a) key"
    and "proto_of ob = proto_of (obj_at h a)"
  shows "find_slot n (h[a := ob]) v key = find_slot n h v key"
proof (induction n arbitrary: v)
  case 0
  then show ?case by simp
next
  case (Suc n)
  show ?case
  proof (cases v)
    case (VRef b)
    show ?thesis
    proof (cases "b = a")
      case True
      then show ?thesis using VRef Suc assms
        by (cases "own_slot (obj_at h a) key") (simp_all add: obj_at_update)
    next
      case False
      then show ?thesis using VRef Suc assms
        by (cases "own_slot (obj_at h b) key") (simp_all add: obj_at_update)
    qed
  next
    case (VBuiltin b)
    then show ?thesis using Suc by (cases "builtin_slot b key") simp_all
  qed simp_all
qed

lemma get_prop_update:
  assumes "a < length h" "own_slot ob key = own_slot (obj_at h a) key"
    and "proto_of ob = proto_of (obj_at h a)"
  shows "get_prop (h[a := ob]) v key = get_prop h v key"
proof -
  have p: "\<And>v. prototype_of (h[a := ob]) v = prototype_of h v"
  proof -
    fix v show "prototype_of (h[a := ob]) v = prototype_of h v"
      using assms(1,3) by (cases v) (simp_all add: obj_at_update)
  qed
  have f: "\<And>v. find_slot (chain_fuel (h[a := ob])) (h[a := ob]) v key = find_slot (chain_fuel h) h v key"
    using find_slot_update[OF assms] by (simp add: chain_fuel_def)
  have r: "\<And>v s. read_slot (h[a := ob]) v s = read_slot h v s"
    by (simp add: read_slot_def p split: option.splits slot.splits)
  show ?thesis by (cases v) (simp_all add: f r split: option.splits)
qed


section \<open>Where a sequence of segments leads\<close>

lemma leads_to_undef: "leads_to h VUndef segs = VUndef"
  by (induction segs) (simp_all add: leads_to_def)

lemma leads_to_Cons: "leads_to h cur (seg # segs) = leads_to h (get_prop h cur seg) segs"
  by (simp add: leads_to_def)

lemma leads_to_nullish:
  "cur = VNull \<or> cur = VUndef \<Longrightarrow> leads_to h cur (seg # segs) = VUndef"
  by (auto simp: leads_to_Cons leads_to_undef)

lemma walk_leads_to:
  "walk h cur segs = Some (leads_to h cur segs)
   \<or> (walk h cur segs = None \<and> leads_to h cur segs = VUndef)"
proof (induction segs arbitrary: cur)
  case Nil
  then show ?case by (simp add: leads_to_def)
next
  case (Cons seg segs)
  show ?case
  proof (cases "cur = VNull \<or> cur = VUndef")
    case True
    then show ?thesis using leads_to_nullish[OF True] by auto
  next
    case False
    then show ?thesis using Cons[of "get_prop h cur seg"] by (simp add: leads_to_Cons)
  qed
qed

lemma walk_reaches: "leads_to h cur segs = VRef a \<Longrightarrow> walk h cur segs = Some (VRef a)"
  using walk_leads_to[of h cur segs] by auto


section \<open>Terminal wildcards\<close>

lemma call_censor_eq: "call_censor c log v p = (censored c v p, log @ logged c v p)"
  by (cases c) (simp_all add: call_censor_def censored_def logged_def)

lemma censor_at_str:
  "censor_at c h log v (VStr path) key
   = Inr (censored c v (VStr (replace_star path key)),
          log @ logged c v (VStr (replace_star path key)))"
  by (cases c) (simp_all add: censor_at_def replace_in_def call_censor_def censored_def logged_def)

lemma censor_elems_upt:
  "a < length h \<Longrightarrow> h ! a = Obj (KArr zs) proto ps hs \<Longrightarrow> k \<le> length zs \<Longrightarrow> n = length zs \<Longrightarrow>
   censor_elems c (VStr path) (h, log) (VRef a) [k..<n]
   = Inr (h[a := Obj (KArr (take k zs @ map (\<lambda>i. censored c (zs ! i) (VStr (replace_star path (show_nat i)))) [k..<n]))
                  proto ps hs],
      log @ concat (map (\<lambda>i. logged c (zs ! i) (VStr (replace_star path (show_nat i)))) [k..<n]))"
proof (induction "n - k" arbitrary: k h zs log)
  case 0
  then have "k = length zs" by simp
  then show ?case using 0 list_update_id[of h a] by simp
next
  case (Suc d)
  then have kn: "k < n" by simp
  define x where "x = censored c (zs ! k) (VStr (replace_star path (show_nat k)))"
  define h1 where "h1 = h[a := Obj (KArr (zs[k := x])) proto ps hs]"
  have ge: "get_elem h (VRef a) k = zs ! k"
    using Suc.prems kn by (simp add: get_elem_def elems_of_def kind_of_def obj_at_def)
  have se: "set_elem h (VRef a) k x = h1"
    using Suc.prems kn by (simp add: set_elem_def h1_def)
  have step: "censor_elems c (VStr path) (h, log) (VRef a) [k..<n]
      = censor_elems c (VStr path) (h1, log @ logged c (zs ! k) (VStr (replace_star path (show_nat k)))) (VRef a) [Suc k..<n]"
    using kn by (simp add: upt_conv_Cons censor_at_str ge se[unfolded x_def])
  have ih: "censor_elems c (VStr path) (h1, log @ logged c (zs ! k) (VStr (replace_star path (show_nat k)))) (VRef a) [Suc k..<n]
      = Inr (h1[a := Obj (KArr (take (Suc k) (zs[k := x])
             @ map (\<lambda>i. censored c (zs[k := x] ! i) (VStr (replace_star path (show_nat i)))) [Suc k..<n])) proto ps hs],
         (log @ logged c (zs ! k) (VStr (replace_star path (show_nat k))))
           @ concat (map (\<lambda>i. logged c (zs[k := x] ! i) (VStr (replace_star path (show_nat i)))) [Suc k..<n]))"
    using Suc.hyps(2) Suc.prems kn
    by (intro Suc.hyps(1)) (simp_all add: h1_def)
  have m1: "map (\<lambda>i. censored c (zs[k := x] ! i) (VStr (replace_star path (show_nat i)))) [Suc k..<n]
      = map (\<lambda>i. censored c (zs ! i) (VStr (replace_star path (show_nat i)))) [Suc k..<n]"
    by (rule map_cong) auto
  have m2: "map (\<lambda>i. logged c (zs[k := x] ! i) (VStr (replace_star path (show_nat i)))) [Suc k..<n]
      = map (\<lambda>i. logged c (zs ! i) (VStr (replace_star path (show_nat i)))) [Suc k..<n]"
    by (rule map_cong) auto
  have t: "take (Suc k) (zs[k := x]) = take k zs @ [x]"
    using kn Suc.prems by (simp add: take_Suc_conv_app_nth)
  show ?case unfolding step ih m1 m2 t using kn
    by (simp add: h1_def upt_conv_Cons x_def)
qed

lemma update_after:
  "key \<notin> fst ` set xs \<Longrightarrow> AList.update key y (xs @ ys) = xs @ AList.update key y ys"
  by (induction xs) auto

lemma map_of_after: "key \<notin> fst ` set xs \<Longrightarrow> map_of (xs @ ys) key = map_of ys key"
  by (induction xs) auto

lemma own_slot_plain:
  "\<forall>xs. k \<noteq> KArr xs \<Longrightarrow>
   own_slot (Obj k proto ps hs) key
   = (case map_of ps key of
        Some v \<Rightarrow> Some (Data v True)
      | None \<Rightarrow> (case map_of hs key of Some (v, w) \<Rightarrow> Some (Data v w) | None \<Rightarrow> None))"
  by (cases k) (simp_all add: own_slot_def)

lemma enum_keys_object:
  assumes "a < length h" "h ! a = Obj k proto ps hs" "\<forall>xs. k \<noteq> KArr xs"
  shows "enum_keys h (VRef a)
       = map fst ps @ for_in (length h + 3) h proto (map fst ps @ map fst hs)"
  unfolding enum_keys_unfold using assms
  by (cases k) (simp_all add: obj_at_def own_enum_keys_def own_keys_def proto_of_def)

lemma set_prop_object:
  assumes "a < length h" "h ! a = Obj k proto ps hs" "\<forall>xs. k \<noteq> KArr xs"
    and "key \<in> fst ` set ps
         \<or> (map_of hs key = None \<and> (\<exists>x. find_slot (chain_fuel h) h proto key = Some (Data x True)))"
  shows "set_prop h (VRef a) key y = Inr (h[a := Obj k proto (AList.update key y ps) hs])"
proof -
  have aw: "array_write k key y = None" using assms(3) by (cases k) (simp_all add: array_write_def)
  show ?thesis using assms(1,2,4) aw by auto
qed

lemma get_prop_own:
  assumes "a < length h" "h ! a = Obj k proto ps hs" "\<forall>xs. k \<noteq> KArr xs"
    and "distinct (map fst ps)" "p \<in> set ps"
  shows "get_prop h (VRef a) (fst p) = snd p"
proof -
  have "map_of ps (fst p) = Some (snd p)" using assms(4,5) by simp
  then have "own_slot (obj_at h a) (fst p) = Some (Data (snd p) True)"
    using assms(1,2,3) by (simp add: own_slot_plain obj_at_def)
  then have "find_slot (chain_fuel h) h (VRef a) (fst p) = Some (Data (snd p) True)"
    by (simp only: find_slot_fuel) simp
  then show ?thesis by (simp only: get_prop.simps) (simp add: read_slot_def)
qed

text \<open>The loop \<open>for (const key in current) { ... current[key] = actualCensor }\<close> on an object
  that is not an array, after the keys \<open>done\<close> and before the keys \<open>todo\<close>.\<close>

lemma censor_keys_object:
  assumes a: "a < length h" and o: "h ! a = Obj k proto ps hs" and k: "\<forall>xs. k \<noteq> KArr xs"
    and d: "distinct (enum_keys h (VRef a))"
  shows "enum_keys h (VRef a) = done @ todo \<Longrightarrow>
    censor_keys c (VStr path)
      (h[a := Obj k proto
            (map (\<lambda>key. (key, censored c (get_prop h (VRef a) key) (VStr (replace_star path key)))) done
             @ drop (length done) ps) hs], log)
      (VRef a) todo
    = Inr (h[a := Obj k proto
            (map (\<lambda>key. (key, censored c (get_prop h (VRef a) key) (VStr (replace_star path key))))
               (done @ todo)) hs],
           log @ concat (map (\<lambda>key. logged c (get_prop h (VRef a) key) (VStr (replace_star path key))) todo))"
proof (induction todo arbitrary: "done" log)
  case Nil
  have "length ps \<le> length done" using Nil enum_keys_object[OF a o k]
    by (metis append_Nil2 le_add1 length_append length_map)
  then show ?case by simp
next
  case (Cons key todo)
  define g where "g = (\<lambda>key. censored c (get_prop h (VRef a) key) (VStr (replace_star path key)))"
  define psj where "psj = map (\<lambda>key. (key, g key)) done @ drop (length done) ps"
  define hc where "hc = h[a := Obj k proto psj hs]"
  define inh where "inh = for_in (length h + 3) h proto (map fst ps @ map fst hs)"
  have enum: "enum_keys h (VRef a) = map fst ps @ inh"
    using enum_keys_object[OF a o k] by (simp add: inh_def)
  have split: "map fst ps @ inh = done @ key # todo" using enum Cons.prems by simp
  have nd: "key \<notin> set done" using d Cons.prems by auto
  have nd': "key \<notin> fst ` set (map (\<lambda>key. (key, g key)) done)" using nd by (auto simp: image_iff)
  have hca: "a < length hc" "hc ! a = Obj k proto psj hs" "length hc = length h"
    using a by (simp_all add: hc_def)
  have oat: "obj_at h a = Obj k proto ps hs" using a o by (simp add: obj_at_def)
  have dps: "distinct (map fst ps)" using d enum by simp
  have cases: "(length done < length ps \<and> drop (length done) ps = (key, snd (ps ! length done)) # drop (Suc (length done)) ps
                \<and> map_of ps key = Some (snd (ps ! length done)))
       \<or> (length ps \<le> length done \<and> key \<in> set inh)"
  proof (cases "length done < length ps")
    case True
    have "(done @ key # todo) ! length done = key" by simp
    then have "(map fst ps @ inh) ! length done = key" using split by simp
    then have fk: "fst (ps ! length done) = key" using True by (simp add: nth_append)
    have "drop (length done) ps = ps ! length done # drop (Suc (length done)) ps"
      using True by (simp add: Cons_nth_drop_Suc)
    moreover have "map_of ps key = Some (snd (ps ! length done))"
      using dps True fk by (metis map_of_eq_Some_iff nth_mem prod.collapse)
    ultimately show ?thesis using True fk by (metis prod.collapse)
  next
    case False
    then have le: "length ps \<le> length done" by simp
    have "(map fst ps @ inh) ! length done = key" using split by (metis nth_append_length)
    then have "inh ! (length done - length ps) = key" using le by (simp add: nth_append)
    moreover have "length done - length ps < length inh"
    proof -
      have "length (map fst ps @ inh) = length (done @ key # todo)" using split by simp
      then show ?thesis using le by simp
    qed
    ultimately show ?thesis using le nth_mem by blast
  qed
  have own_eq: "own_slot (Obj k proto psj hs) key = own_slot (obj_at h a) key"
    and wr: "set_prop hc (VRef a) key (g key)
             = Inr (hc[a := Obj k proto (map (\<lambda>key. (key, g key)) (done @ [key]) @ drop (Suc (length done)) ps) hs])"
  proof -
    from cases show "own_slot (Obj k proto psj hs) key = own_slot (obj_at h a) key"
    proof
      assume c1: "length done < length ps \<and> drop (length done) ps = (key, snd (ps ! length done)) # drop (Suc (length done)) ps
                \<and> map_of ps key = Some (snd (ps ! length done))"
      have "map_of psj key = map_of (drop (length done) ps) key"
        unfolding psj_def by (rule map_of_after[OF nd'])
      also have "\<dots> = Some (snd (ps ! length done))" using c1 by simp
      finally show ?thesis using c1 k oat by (simp add: own_slot_plain)
    next
      assume c2: "length ps \<le> length done \<and> key \<in> set inh"
      then have "key \<in> set (for_in (length h + 3) h proto (map fst ps @ map fst hs))"
        by (simp add: inh_def)
      then have ns: "key \<notin> set (map fst ps @ map fst hs)" by (rule for_in_not_seen)
      then have "key \<notin> set (own_keys (obj_at h a))"
        using oat k by (cases k) (simp_all add: own_keys_def own_enum_keys_def)
      then have n0: "own_slot (obj_at h a) key = None" by (rule not_own_keys_slot)
      have "map_of psj key = map_of (drop (length done) ps) key"
        unfolding psj_def by (rule map_of_after[OF nd'])
      then have "map_of psj key = None" using c2 by simp
      moreover have "map_of hs key = None" using ns by (simp add: map_of_eq_None_iff)
      ultimately show ?thesis using n0 k by (simp add: own_slot_plain)
    qed
  next
    from cases show "set_prop hc (VRef a) key (g key)
             = Inr (hc[a := Obj k proto (map (\<lambda>key. (key, g key)) (done @ [key]) @ drop (Suc (length done)) ps) hs])"
    proof
      assume c1: "length done < length ps \<and> drop (length done) ps = (key, snd (ps ! length done)) # drop (Suc (length done)) ps
                \<and> map_of ps key = Some (snd (ps ! length done))"
      then have "key \<in> fst ` set psj" by (simp add: psj_def)
      then have "set_prop hc (VRef a) key (g key) = Inr (hc[a := Obj k proto (AList.update key (g key) psj) hs])"
        using set_prop_object[OF hca(1,2) k] by blast
      moreover have "AList.update key (g key) psj
          = map (\<lambda>key. (key, g key)) (done @ [key]) @ drop (Suc (length done)) ps"
        using c1 update_after[OF nd'] by (simp add: psj_def)
      ultimately show ?thesis by simp
    next
      assume c2: "length ps \<le> length done \<and> key \<in> set inh"
      then have "key \<in> set (for_in (length h + 3) h proto (map fst ps @ map fst hs))"
        by (simp add: inh_def)
      then have ns: "key \<notin> set (map fst ps @ map fst hs)" by (rule for_in_not_seen)
      then have mh: "map_of hs key = None" by (simp add: map_of_eq_None_iff)
      have "key \<notin> set (own_keys (obj_at h a))"
        using ns oat k by (cases k) (simp_all add: own_keys_def own_enum_keys_def)
      then have n0: "own_slot (obj_at h a) key = None" by (rule not_own_keys_slot)
      have "map_of psj key = map_of (drop (length done) ps) key"
        unfolding psj_def by (rule map_of_after[OF nd'])
      then have npsj: "map_of psj key = None" using c2 by simp
      have own_same: "own_slot (Obj k proto psj hs) key = own_slot (obj_at h a) key"
        using n0 npsj mh k by (simp add: own_slot_plain)
      obtain x where "find_slot (length h + 3) h proto key = Some (Data x True)"
        using for_in_slot[of key "length h + 3" h proto] c2 by (auto simp: inh_def)
      then have "find_slot (Suc (length h + 3)) h proto key = Some (Data x True)"
        by (rule find_slot_mono)
      then have "find_slot (chain_fuel h) h proto key = Some (Data x True)"
        by (simp only: chain_fuel_Suc)
      then have "find_slot (chain_fuel hc) hc proto key = Some (Data x True)"
        using find_slot_update[OF a own_same, of "chain_fuel h" proto] oat
        by (simp add: hc_def chain_fuel_def proto_of_def del: find_slot.simps)
      then have "set_prop hc (VRef a) key (g key) = Inr (hc[a := Obj k proto (AList.update key (g key) psj) hs])"
        using set_prop_object[OF hca(1,2) k] mh by blast
      moreover have "AList.update key (g key) psj
          = map (\<lambda>key. (key, g key)) (done @ [key]) @ drop (Suc (length done)) ps"
        using c2 update_after[OF nd', of "g key" "[]"] by (simp add: psj_def)
      ultimately show ?thesis by simp
    qed
  qed
  have pr: "proto_of (Obj k proto psj hs) = proto_of (obj_at h a)"
    using oat by (simp add: proto_of_def)
  have rd: "get_prop hc (VRef a) key = get_prop h (VRef a) key"
    unfolding hc_def by (rule get_prop_update[OF a own_eq pr])
  have step: "censor_keys c (VStr path) (hc, log) (VRef a) (key # todo)
      = censor_keys c (VStr path)
          (h[a := Obj k proto (map (\<lambda>key. (key, g key)) (done @ [key]) @ drop (length (done @ [key])) ps) hs],
           log @ logged c (get_prop h (VRef a) key) (VStr (replace_star path key)))
          (VRef a) todo"
    using wr rd by (simp add: censor_at_str g_def hc_def del: set_prop.simps get_prop.simps)
  have ih: "censor_keys c (VStr path)
          (h[a := Obj k proto (map (\<lambda>key. (key, g key)) (done @ [key]) @ drop (length (done @ [key])) ps) hs],
           log @ logged c (get_prop h (VRef a) key) (VStr (replace_star path key)))
          (VRef a) todo
      = Inr (h[a := Obj k proto (map (\<lambda>key. (key, g key)) ((done @ [key]) @ todo)) hs],
           (log @ logged c (get_prop h (VRef a) key) (VStr (replace_star path key)))
           @ concat (map (\<lambda>key. logged c (get_prop h (VRef a) key) (VStr (replace_star path key))) todo))"
    unfolding g_def using Cons.prems by (intro Cons.IH) simp
  show ?case using step ih by (simp add: hc_def psj_def g_def)
qed


lemma indexOf_star_append: "''*'' \<notin> set pre \<Longrightarrow> indexOf_star (pre @ ''*'' # post) = length pre"
  by (induction pre) (auto simp: indexOf_star_def)

lemma redactPaths_single:
  "redactPaths s ob [VStr path] c
   = (if ''*'' \<in> set (parsePath path) then redactWildcardPath s ob (parsePath path) c (VStr path)
      else (case setValue (fst s) ob (parsePath path)
                   (censored c (getValue (fst s) ob (parsePath path)) (VStr path)) of
              Inl e \<Rightarrow> Inl e
            | Inr r \<Rightarrow> Inr (fst r, snd s @ logged c (getValue (fst s) ob (parsePath path)) (VStr path))))"
  by (cases s) (auto simp: call_censor_eq path_parts_def split: sum.splits)

lemma redactPaths_terminal:
  assumes "parsePath path = pre @ [''*'']" "''*'' \<notin> set pre"
  shows "redactPaths (h, log) ob [VStr path] c
    = (case walk h ob pre of
         None \<Rightarrow> Inr (h, log)
       | Some cur \<Rightarrow>
           if isArray h cur
           then censor_elems c (VStr path) (h, log) cur [0..<length (elems_of h cur)]
           else if is_object h cur then censor_keys c (VStr path) (h, log) cur (enum_keys h cur)
           else Inr (h, log))"
  using assms indexOf_star_append[OF assms(2), of "[]"]
  by (simp add: redactPaths_single redactWildcardPath_def del: redactPaths.simps split: option.splits)

text \<open>
  C5. For a path whose last segment is the wildcard (and no earlier one is), let the
  preceding segments, read one after the other as properties from the root, lead to the
  object at address \<open>a\<close>. If it is an array, redaction replaces every element by what the
  censor yields for it, and the array keeps its length. If it is another object (not a
  function), the value of every own enumerable key is replaced by what the censor yields
  for it, the keys stay in place, and each enumerable key the object inherits becomes
  an own key holding what the censor yields for the inherited value. Nothing else in
  the store changes. With a literal censor every element or value becomes that literal:
  \<open>data.items.*\<close> against \<open>{data: {items: [1, 2, 3]}}\<close> gives three times \<open>'[REDACTED]'\<close>.
\<close>

theorem C5_terminal_wildcard_replaces_all:
  assumes "parsePath path = pre @ [''*'']" "''*'' \<notin> set pre"
    and "leads_to h ob pre = VRef a" "a < length h" "h ! a = Obj k proto ps hs"
  shows "(\<forall>xs. k = KArr xs \<longrightarrow>
            (\<exists>h' log'. redactPaths (h, log) ob [VStr path] censor = Inr (h', log')
               \<and> h' = h[a := Obj (KArr (map (\<lambda>i. censored censor (xs ! i)
                                  (VStr (replace_star path (show_nat i)))) [0..<length xs])) proto ps hs]
               \<and> length (elems_of h' (VRef a)) = length xs))
       \<and> ((k = KPlain \<or> (\<exists>t. k = KDate t)) \<and> distinct (enum_keys h (VRef a)) \<longrightarrow>
            (\<exists>log'. redactPaths (h, log) ob [VStr path] censor
               = Inr (h[a := Obj k proto
                        (map (\<lambda>p. (fst p, censored censor (snd p) (VStr (replace_star path (fst p))))) ps
                         @ map (\<lambda>key. (key, censored censor (get_prop h (VRef a) key)
                                               (VStr (replace_star path key))))
                             (inherited_keys h a)) hs], log')))"
proof (intro conjI allI impI)
  fix xs assume kx: "k = KArr xs"
  have o: "h ! a = Obj (KArr xs) proto ps hs" using assms(5) kx by simp
  have arr: "isArray h (VRef a)" "elems_of h (VRef a) = xs"
    using o assms(4) by (simp_all add: kind_of_def obj_at_def elems_of_def)
  show "\<exists>h' log'. redactPaths (h, log) ob [VStr path] censor = Inr (h', log')
               \<and> h' = h[a := Obj (KArr (map (\<lambda>i. censored censor (xs ! i)
                                  (VStr (replace_star path (show_nat i)))) [0..<length xs])) proto ps hs]
               \<and> length (elems_of h' (VRef a)) = length xs"
    using redactPaths_terminal[OF assms(1,2), of h log ob censor] walk_reaches[OF assms(3)] assms(4) arr
      censor_elems_upt[OF assms(4) o, of 0 "length xs" censor path log]
    by (simp add: elems_of_def kind_of_def obj_at_def del: redactPaths.simps)
next
  assume hyp: "(k = KPlain \<or> (\<exists>t. k = KDate t)) \<and> distinct (enum_keys h (VRef a))"
  then have k: "\<forall>xs. k \<noteq> KArr xs" and d: "distinct (enum_keys h (VRef a))" by auto
  have obj: "\<not> isArray h (VRef a)" "is_object h (VRef a)"
    using assms(4,5) hyp by (auto simp: kind_of_def obj_at_def is_object_def)
  have en: "enum_keys h (VRef a) = map fst ps @ inherited_keys h a"
    using enum_keys_object[OF assms(4,5) k] assms(4,5)
    by (simp add: inherited_keys_def obj_at_def props_of_def)
  have dps: "distinct (map fst ps)" using d en by simp
  define g where "g = (\<lambda>key. (key, censored censor (get_prop h (VRef a) key) (VStr (replace_star path key))))"
  have own: "map g (map fst ps)
           = map (\<lambda>p. (fst p, censored censor (snd p) (VStr (replace_star path (fst p))))) ps"
    using get_prop_own[OF assms(4,5) k dps] by (simp add: g_def del: get_prop.simps)
  have st: "h[a := Obj k proto (map g [] @ drop (length ([] :: string list)) ps) hs] = h"
    using assms(5) list_update_id[of h a] by simp
  have fin: "map g ([] @ enum_keys h (VRef a))
      = map (\<lambda>p. (fst p, censored censor (snd p) (VStr (replace_star path (fst p))))) ps
        @ map g (inherited_keys h a)"
    unfolding en using own by (simp only: append_Nil map_append)
  have raw: "censor_keys censor (VStr path)
      (h[a := Obj k proto (map g [] @ drop (length ([] :: string list)) ps) hs], log)
      (VRef a) (enum_keys h (VRef a))
    = Inr (h[a := Obj k proto (map g ([] @ enum_keys h (VRef a))) hs],
           log @ concat (map (\<lambda>key. logged censor (get_prop h (VRef a) key) (VStr (replace_star path key)))
                           (enum_keys h (VRef a))))"
    unfolding g_def by (rule censor_keys_object[OF assms(4,5) k d]) simp
  have ck: "censor_keys censor (VStr path) (h, log) (VRef a) (enum_keys h (VRef a))
    = Inr (h[a := Obj k proto
            (map (\<lambda>p. (fst p, censored censor (snd p) (VStr (replace_star path (fst p))))) ps
             @ map g (inherited_keys h a)) hs],
           log @ concat (map (\<lambda>key. logged censor (get_prop h (VRef a) key) (VStr (replace_star path key)))
                           (enum_keys h (VRef a))))"
    using raw unfolding st fin .
  show "\<exists>log'. redactPaths (h, log) ob [VStr path] censor
               = Inr (h[a := Obj k proto
                        (map (\<lambda>p. (fst p, censored censor (snd p) (VStr (replace_star path (fst p))))) ps
                         @ map (\<lambda>key. (key, censored censor (get_prop h (VRef a) key)
                                               (VStr (replace_star path key))))
                             (inherited_keys h a)) hs], log')"
    using redactPaths_terminal[OF assms(1,2), of h log ob censor] walk_reaches[OF assms(3)] obj ck
    by (simp add: g_def del: redactPaths.simps get_prop.simps)
qed

theorem C5_terminal_wildcard_replaces_all_witness:
  "parsePath ''data.items.*'' = [''data'', ''items''] @ [''*''] \<and> ''*'' \<notin> set [''data'', ''items'']
   \<and> leads_to [plain [(''data'', VRef 1)], plain [(''items'', VRef 2)], array [VNum 1, VNum 2, VNum 3]]
        (VRef 0) [''data'', ''items''] = VRef 2
   \<and> redactPaths ([plain [(''data'', VRef 1)], plain [(''items'', VRef 2)], array [VNum 1, VNum 2, VNum 3]], [])
        (VRef 0) [VStr ''data.items.*''] (CLit (VStr ''[REDACTED]''))
      = Inr ([plain [(''data'', VRef 1)], plain [(''items'', VRef 2)],
              array [VStr ''[REDACTED]'', VStr ''[REDACTED]'', VStr ''[REDACTED]'']], [])
   \<and> parsePath ''a.b.*'' = [''a'', ''b''] @ [''*''] \<and> ''*'' \<notin> set [''a'', ''b'']
   \<and> leads_to [plain [(''a'', VRef 1)], plain [(''b'', VRef 2)],
                Obj KPlain (VRef 3) [(''x'', VNum 1), (''y'', VNum 2)] [], plain [(''z'', VNum 3)]]
        (VRef 0) [''a'', ''b''] = VRef 2
   \<and> distinct (enum_keys [plain [(''a'', VRef 1)], plain [(''b'', VRef 2)],
                Obj KPlain (VRef 3) [(''x'', VNum 1), (''y'', VNum 2)] [], plain [(''z'', VNum 3)]] (VRef 2))
   \<and> redactPaths ([plain [(''a'', VRef 1)], plain [(''b'', VRef 2)],
                Obj KPlain (VRef 3) [(''x'', VNum 1), (''y'', VNum 2)] [], plain [(''z'', VNum 3)]], [])
        (VRef 0) [VStr ''a.b.*''] (CLit (VStr ''[REDACTED]''))
      = Inr ([plain [(''a'', VRef 1)], plain [(''b'', VRef 2)],
              Obj KPlain (VRef 3)
                [(''x'', VStr ''[REDACTED]''), (''y'', VStr ''[REDACTED]''), (''z'', VStr ''[REDACTED]'')] [],
              plain [(''z'', VNum 3)]], [])"
proof -
  let ?h1 = "[plain [(''data'', VRef 1)], plain [(''items'', VRef 2)], array [VNum 1, VNum 2, VNum 3]]"
  let ?h2 = "[plain [(''a'', VRef 1)], plain [(''b'', VRef 2)],
                Obj KPlain (VRef 3) [(''x'', VNum 1), (''y'', VNum 2)] [], plain [(''z'', VNum 3)]]"
  have p1: "parsePath ''data.items.*'' = [''data'', ''items''] @ [''*'']" by code_simp
  have w1: "leads_to ?h1 (VRef 0) [''data'', ''items''] = VRef 2" by code_simp
  have r1: "redactPaths (?h1, []) (VRef 0) [VStr ''data.items.*''] (CLit (VStr ''[REDACTED]''))
      = Inr ([plain [(''data'', VRef 1)], plain [(''items'', VRef 2)],
              array [VStr ''[REDACTED]'', VStr ''[REDACTED]'', VStr ''[REDACTED]'']], [])"
    by code_simp
  have p2: "parsePath ''a.b.*'' = [''a'', ''b''] @ [''*'']" by code_simp
  have w2: "leads_to ?h2 (VRef 0) [''a'', ''b''] = VRef 2" by code_simp
  have d2: "distinct (enum_keys ?h2 (VRef 2))" by code_simp
  have r2: "redactPaths (?h2, []) (VRef 0) [VStr ''a.b.*''] (CLit (VStr ''[REDACTED]''))
      = Inr ([plain [(''a'', VRef 1)], plain [(''b'', VRef 2)],
              Obj KPlain (VRef 3)
                [(''x'', VStr ''[REDACTED]''), (''y'', VStr ''[REDACTED]''), (''z'', VStr ''[REDACTED]'')] [],
              plain [(''z'', VNum 3)]], [])"
    by code_simp
  show ?thesis
    using C5_terminal_wildcard_replaces_all[OF p1 _ w1, of "KArr [VNum 1, VNum 2, VNum 3]" "VBuiltin (Proto CArray)" "[]" "[]" "[]" "CLit (VStr ''[REDACTED]'')"]
      C5_terminal_wildcard_replaces_all[OF p2 _ w2, of KPlain "VRef 3" "[(''x'', VNum 1), (''y'', VNum 2)]" "[]" "[]" "CLit (VStr ''[REDACTED]'')"]
      p1 w1 r1 p2 w2 d2 r2
    by (simp add: array_def)
qed


section \<open>Calls of a censor function\<close>

















end
